theory Spec2Isabelle
  imports Complex_Main
begin

section \<open>Python values\<close>

text \<open>
  The operands of \<^verbatim>\<open>pydash/objects.py\<close> are dynamically typed Python values. A value
  is \<^verbatim>\<open>None\<close>, a \<^verbatim>\<open>bool\<close>, an unbounded \<^verbatim>\<open>int\<close>, a finite \<^verbatim>\<open>float\<close> (given by
  its exact rational value; NaN and the infinities are left out), a string, a \<^verbatim>\<open>list\<close>,
  a \<^verbatim>\<open>dict\<close> (its items in insertion order) or a callable, named by an identifier
  that an environment of type \<open>fenv\<close> interprets.
\<close>

datatype pyval =
    PNone
  | PBool bool
  | PInt int
  | PFloat rat
  | PStr string
  | PList "pyval list"
  | PDict "(pyval \<times> pyval) list"
  | PFunc nat

datatype error =
    TypeError | IndexError | KeyError | AttributeError | RuntimeError | Raised nat | IllFormedStore

text \<open>
  \<open>RuntimeError\<close> is what the iterator of a dict raises when the dict has changed its
  size. \<open>Raised n\<close> is an exception of a callable's own. \<open>IllFormedStore\<close> is no Python
  exception: it is the answer of the store model below when a reference points
  outside the store, which a well-formed store excludes.
\<close>

type_synonym 'a result = "error + 'a"

text \<open>
  A callable is a deterministic function of its argument list that returns a value or
  raises; called with a number of arguments it does not accept, it raises.
\<close>

type_synonym fenv = "nat \<Rightarrow> pyval list \<Rightarrow> pyval result"

text \<open>Truth value testing, \<^verbatim>\<open>bool(value)\<close>.\<close>

fun truthy :: "pyval \<Rightarrow> bool" where
  "truthy PNone = False"
| "truthy (PBool b) = b"
| "truthy (PInt i) = (i \<noteq> 0)"
| "truthy (PFloat r) = (r \<noteq> 0)"
| "truthy (PStr s) = (s \<noteq> [])"
| "truthy (PList xs) = (xs \<noteq> [])"
| "truthy (PDict kvs) = (kvs \<noteq> [])"
| "truthy (PFunc f) = True"

text \<open>\<^verbatim>\<open>callable(value)\<close> and calling a value.\<close>

fun callable :: "pyval \<Rightarrow> bool" where
  "callable (PFunc f) = True"
| "callable _ = False"

fun call :: "fenv \<Rightarrow> pyval \<Rightarrow> pyval list \<Rightarrow> pyval result" where
  "call fe (PFunc f) args = fe f args"
| "call fe _ args = Inl TypeError"

text \<open>The builtins \<^verbatim>\<open>any\<close> and \<^verbatim>\<open>all\<close> on a list of truth values.\<close>

fun py_any :: "bool list \<Rightarrow> bool" where
  "py_any [] = False"
| "py_any (b # bs) = (if b then True else py_any bs)"

fun py_all :: "bool list \<Rightarrow> bool" where
  "py_all [] = True"
| "py_all (b # bs) = (if b then py_all bs else False)"

section \<open>Type predicates\<close>

text \<open>\<^verbatim>\<open>isinstance(value, list)\<close>, \<^verbatim>\<open>isinstance(value, dict)\<close>.\<close>

fun is_list :: "pyval \<Rightarrow> bool" where
  "is_list (PList xs) = True"
| "is_list _ = False"

fun is_dict :: "pyval \<Rightarrow> bool" where
  "is_dict (PDict kvs) = True"
| "is_dict _ = False"

fun is_boolean :: "pyval \<Rightarrow> bool" where
  "is_boolean (PBool b) = True"
| "is_boolean _ = False"

text \<open>
  Modelled from the spec: \<^verbatim>\<open>integer_types\<close> of \<^verbatim>\<open>pydash/_compat.py\<close>, the integer
  classes of the host language, here \<^verbatim>\<open>int\<close>. So \<^verbatim>\<open>is_number\<close>, which is
  \<^verbatim>\<open>isinstance(value, integer_types + (float,))\<close>, holds of integers and floats, and
  of booleans: \<^verbatim>\<open>bool\<close> is a subclass of \<^verbatim>\<open>int\<close>.
\<close>

fun is_number :: "pyval \<Rightarrow> bool" where
  "is_number (PBool b) = True"
| "is_number (PInt i) = True"
| "is_number (PFloat r) = True"
| "is_number _ = False"

text \<open>
  Modelled from the spec: \<^verbatim>\<open>string_types\<close> of \<^verbatim>\<open>pydash/_compat.py\<close>, the text
  classes of the host language, here the one string type.
\<close>

fun is_string :: "pyval \<Rightarrow> bool" where
  "is_string (PStr s) = True"
| "is_string _ = False"

definition is_none :: "pyval \<Rightarrow> bool" where
  "is_none v = (v = PNone)"

definition is_function :: "pyval \<Rightarrow> bool" where
  "is_function v = callable v"

definition is_empty :: "pyval \<Rightarrow> bool" where
  "is_empty v = py_any [is_boolean v, is_number v, \<not> truthy v]"

section \<open>Dictionaries and lists\<close>

text \<open>
  Dictionary keys are compared with \<^verbatim>\<open>==\<close> (after hashing): numbers of different
  types are equal keys when they have the same value, so \<^verbatim>\<open>True\<close>, \<^verbatim>\<open>1\<close> and
  \<^verbatim>\<open>1.0\<close> are one key. Lists and dicts are unhashable.
\<close>

fun num_of :: "pyval \<Rightarrow> rat option" where
  "num_of (PBool b) = Some (if b then 1 else 0)"
| "num_of (PInt i) = Some (of_int i)"
| "num_of (PFloat r) = Some r"
| "num_of _ = None"

definition key_eq :: "pyval \<Rightarrow> pyval \<Rightarrow> bool" where
  "key_eq a b =
     (case num_of a of
        Some x \<Rightarrow> (case num_of b of Some y \<Rightarrow> x = y | None \<Rightarrow> False)
      | None \<Rightarrow> (case num_of b of Some y \<Rightarrow> False | None \<Rightarrow> a = b))"

fun hashable :: "pyval \<Rightarrow> bool" where
  "hashable (PList xs) = False"
| "hashable (PDict kvs) = False"
| "hashable _ = True"

text \<open>\<^verbatim>\<open>d.get(key)\<close> as an option, and \<^verbatim>\<open>d[key] = value\<close>: an existing key keeps its
  position and its key object, a new key is added at the end.\<close>

fun dict_get :: "(pyval \<times> 'v) list \<Rightarrow> pyval \<Rightarrow> 'v option" where
  "dict_get [] k = None"
| "dict_get ((k', v) # kvs) k = (if key_eq k' k then Some v else dict_get kvs k)"

fun dict_set :: "(pyval \<times> 'v) list \<Rightarrow> pyval \<Rightarrow> 'v \<Rightarrow> (pyval \<times> 'v) list" where
  "dict_set [] k v = [(k, v)]"
| "dict_set ((k', v') # kvs) k v =
     (if key_eq k' k then (k', v) # kvs else (k', v') # dict_set kvs k v)"

text \<open>The builtin \<^verbatim>\<open>dict(pairs)\<close>: the pairs are stored one after the other.\<close>

fun dict_of :: "(pyval \<times> pyval) list \<Rightarrow> (pyval \<times> pyval) list \<Rightarrow> pyval result" where
  "dict_of acc [] = Inr (PDict acc)"
| "dict_of acc ((k, v) # kvs) =
     (if hashable k then dict_of (dict_set acc k v) kvs else Inl TypeError)"

text \<open>A list index: an \<^verbatim>\<open>int\<close> (or \<^verbatim>\<open>bool\<close>), negative ones counting from the end.\<close>

fun index_of :: "pyval \<Rightarrow> int option" where
  "index_of (PInt i) = Some i"
| "index_of (PBool b) = Some (if b then 1 else 0)"
| "index_of _ = None"

definition list_index :: "nat \<Rightarrow> pyval \<Rightarrow> nat result" where
  "list_index n key =
     (case index_of key of
        None \<Rightarrow> Inl TypeError
      | Some i \<Rightarrow>
          (let j = (if i < 0 then int n + i else i)
           in if 0 \<le> j \<and> j < int n then Inr (nat j) else Inl IndexError))"

text \<open>The builtin \<^verbatim>\<open>enumerate\<close>.\<close>

fun enumerate_from :: "nat \<Rightarrow> pyval list \<Rightarrow> (pyval \<times> pyval) list" where
  "enumerate_from i [] = []"
| "enumerate_from i (x # xs) = (PInt (int i), x) # enumerate_from (Suc i) xs"

section \<open>The helpers of \<^verbatim>\<open>pydash/utils.py\<close>\<close>

text \<open>
  Modelled from the spec: \<^verbatim>\<open>iterate\<close> of \<^verbatim>\<open>pydash/utils.py\<close> (the Generic Iterator).
  For a sequence the pairs are index and element in index order, for a mapping key
  and value in iteration order; any other value is rejected with a type error.
\<close>

fun iterate :: "pyval \<Rightarrow> (pyval \<times> pyval) list result" where
  "iterate (PList xs) = Inr (enumerate_from 0 xs)"
| "iterate (PDict kvs) = Inr kvs"
| "iterate _ = Inl TypeError"

section \<open>Equality of values\<close>

text \<open>
  The comparison \<^verbatim>\<open>a == b\<close> of two values: numbers by value, strings and callables
  as such, lists element by element, dicts as sets of items.
\<close>

fun py_eq :: "pyval \<Rightarrow> pyval \<Rightarrow> bool"
  and py_eq_list :: "pyval list \<Rightarrow> pyval list \<Rightarrow> bool"
  and py_eq_items :: "(pyval \<times> pyval) list \<Rightarrow> (pyval \<times> pyval) list \<Rightarrow> bool"
  and py_eq_item :: "pyval \<Rightarrow> pyval \<Rightarrow> (pyval \<times> pyval) list \<Rightarrow> bool"
where
  "py_eq (PList xs) (PList ys) = py_eq_list xs ys"
| "py_eq (PDict kvs) (PDict kvs') = (length kvs = length kvs' \<and> py_eq_items kvs kvs')"
| "py_eq (PList xs) b = False"
| "py_eq (PDict kvs) b = False"
| "py_eq a b = key_eq a b"
| "py_eq_list [] ys = (ys = [])"
| "py_eq_list (x # xs) [] = False"
| "py_eq_list (x # xs) (y # ys) = (py_eq x y \<and> py_eq_list xs ys)"
| "py_eq_items [] kvs' = True"
| "py_eq_items ((k, v) # kvs) kvs' = (py_eq_item k v kvs' \<and> py_eq_items kvs kvs')"
| "py_eq_item k v [] = False"
| "py_eq_item k v ((k', v') # kvs') = (if key_eq k k' then py_eq v v' else py_eq_item k v kvs')"


section \<open>Callbacks\<close>

text \<open>
  Modelled from the spec: the Callback Normalizer of \<^verbatim>\<open>pydash/utils.py\<close>. The
  descriptor is resolved into a function of value, key and collection. An absent
  descriptor (\<^verbatim>\<open>None\<close>) gives the value back; a callable is called with the three
  arguments (one of lower arity is an interpretation that ignores the rest); a
  string names a property, looked up in the value, \<^verbatim>\<open>None\<close> when absent; a dict
  asks whether the value has each of its keys with an equal value. Any other value
  is not a callback descriptor and is rejected when the function is applied.
\<close>

fun make_callback :: "fenv \<Rightarrow> pyval \<Rightarrow> pyval \<Rightarrow> pyval \<Rightarrow> pyval \<Rightarrow> pyval result" where
  "make_callback fe PNone value key collection = Inr value"
| "make_callback fe (PFunc f) value key collection = fe f [value, key, collection]"
| "make_callback fe (PStr name) value key collection =
     (case value of
        PDict kvs \<Rightarrow> Inr (case dict_get kvs (PStr name) of Some v \<Rightarrow> v | None \<Rightarrow> PNone)
      | _ \<Rightarrow> Inr PNone)"
| "make_callback fe (PDict props) value key collection =
     (case value of
        PDict kvs \<Rightarrow> Inr (PBool (list_all (\<lambda>(k, v). py_eq_item k v kvs) props))
      | _ \<Rightarrow> Inr (PBool (props = [])))"
| "make_callback fe _ value key collection = Inl TypeError"

text \<open>
  Modelled from the spec: \<^verbatim>\<open>iter_callback\<close> of \<^verbatim>\<open>pydash/utils.py\<close> (the Callback
  Iterator): for each pair of \<^verbatim>\<open>iterate(obj)\<close>, in order, the tuple of the normalized
  callback's result, the value, the key and the collection. The sequence is lazy: a
  consumer that stops early does not run the callback on the remaining pairs, and a
  callback that raises does so when its tuple is reached. The callables being
  deterministic and free of effects, the lazy sequence is the list of these tuples,
  each result a value or the error raised.
\<close>

type_synonym cb_tuple = "pyval result \<times> pyval \<times> pyval \<times> pyval"

definition iter_callback :: "fenv \<Rightarrow> pyval \<Rightarrow> pyval \<Rightarrow> cb_tuple list result" where
  "iter_callback fe obj callback =
     (case iterate obj of
        Inl e \<Rightarrow> Inl e
      | Inr ps \<Rightarrow> Inr (map (\<lambda>(key, value). (make_callback fe callback value key obj, value, key, obj)) ps))"

section \<open>\<^verbatim>\<open>find_key\<close>, \<^verbatim>\<open>for_in\<close> and \<^verbatim>\<open>map_values\<close>\<close>

text \<open>\<^verbatim>\<open>find_key\<close> returns the key at the first truthy result and \<^verbatim>\<open>None\<close> when the
  loop runs out.\<close>

fun find_key_loop :: "cb_tuple list \<Rightarrow> pyval result" where
  "find_key_loop [] = Inr PNone"
| "find_key_loop ((result, _, key, _) # ts) =
     (case result of
        Inl e \<Rightarrow> Inl e
      | Inr r \<Rightarrow> if truthy r then Inr key else find_key_loop ts)"

definition find_key :: "fenv \<Rightarrow> pyval \<Rightarrow> pyval \<Rightarrow> pyval result" where
  "find_key fe obj callback =
     (case iter_callback fe obj callback of
        Inl e \<Rightarrow> Inl e
      | Inr ts \<Rightarrow> find_key_loop ts)"

definition find_last_key :: "fenv \<Rightarrow> pyval \<Rightarrow> pyval \<Rightarrow> pyval result" where
  "find_last_key = find_key"

text \<open>
  \<^verbatim>\<open>for_in\<close> returns \<open>obj\<close>; what it does is run the callback. The model returns,
  with \<open>obj\<close>, the pairs the callback has been run on, in order. The test
  \<^verbatim>\<open>result is False\<close> holds of the boolean \<^verbatim>\<open>False\<close> only.
\<close>

fun for_in_loop :: "cb_tuple list \<Rightarrow> (pyval \<times> pyval) list \<Rightarrow> (pyval \<times> pyval) list result" where
  "for_in_loop [] seen = Inr seen"
| "for_in_loop ((result, value, key, _) # ts) seen =
     (case result of
        Inl e \<Rightarrow> Inl e
      | Inr r \<Rightarrow>
          if r = PBool False then Inr (seen @ [(key, value)])
          else for_in_loop ts (seen @ [(key, value)]))"

definition for_in :: "fenv \<Rightarrow> pyval \<Rightarrow> pyval \<Rightarrow> (pyval \<times> (pyval \<times> pyval) list) result" where
  "for_in fe obj callback =
     (case iter_callback fe obj callback of
        Inl e \<Rightarrow> Inl e
      | Inr ts \<Rightarrow>
          (case for_in_loop ts [] of
             Inl e \<Rightarrow> Inl e
           | Inr seen \<Rightarrow> Inr (obj, seen)))"

definition for_in_right :: "fenv \<Rightarrow> pyval \<Rightarrow> pyval \<Rightarrow> (pyval \<times> (pyval \<times> pyval) list) result" where
  "for_in_right = for_in"

definition for_own :: "fenv \<Rightarrow> pyval \<Rightarrow> pyval \<Rightarrow> (pyval \<times> (pyval \<times> pyval) list) result" where
  "for_own = for_in"

definition for_own_right :: "fenv \<Rightarrow> pyval \<Rightarrow> pyval \<Rightarrow> (pyval \<times> (pyval \<times> pyval) list) result" where
  "for_own_right = for_in"

fun map_values_loop :: "cb_tuple list \<Rightarrow> (pyval \<times> pyval) list \<Rightarrow> pyval result" where
  "map_values_loop [] ret = Inr (PDict ret)"
| "map_values_loop ((result, _, key, _) # ts) ret =
     (case result of
        Inl e \<Rightarrow> Inl e
      | Inr r \<Rightarrow> if hashable key then map_values_loop ts (dict_set ret key r) else Inl TypeError)"

definition map_values :: "fenv \<Rightarrow> pyval \<Rightarrow> pyval \<Rightarrow> pyval result" where
  "map_values fe obj callback =
     (case iter_callback fe obj callback of
        Inl e \<Rightarrow> Inl e
      | Inr ts \<Rightarrow> map_values_loop ts [])"

section \<open>\<^verbatim>\<open>pick\<close> and \<^verbatim>\<open>omit\<close>\<close>

text \<open>
  Modelled from the spec: \<^verbatim>\<open>flatten\<close> of \<^verbatim>\<open>pydash/arrays.py\<close>, which turns property
  names given one by one or in lists, nested to any depth, into one flat list.
\<close>

fun flatten :: "pyval list \<Rightarrow> pyval list" where
  "flatten [] = []"
| "flatten (PList xs # vs) = flatten xs @ flatten vs"
| "flatten (v # vs) = v # flatten vs"

text \<open>The membership test \<^verbatim>\<open>key in properties\<close>.\<close>

definition py_in :: "pyval \<Rightarrow> pyval list \<Rightarrow> bool" where
  "py_in key names = list_ex (\<lambda>name. py_eq name key) names"

text \<open>
  The predicate both functions use: the callback itself when it is callable, else
  the test whether the key is among the property names, which are the callback (when
  it is not \<^verbatim>\<open>None\<close>) and the further arguments, flattened.
\<close>

definition property_callback :: "fenv \<Rightarrow> pyval \<Rightarrow> pyval list \<Rightarrow> pyval \<Rightarrow> pyval \<Rightarrow> pyval \<Rightarrow> pyval result" where
  "property_callback fe callback properties value key item =
     (if \<not> callable callback
      then (let callback' = (if callback \<noteq> PNone then callback else PList []);
                properties' = flatten [callback', PList properties]
            in Inr (PBool (py_in key properties')))
      else call fe callback [value, key, item])"

text \<open>\<^verbatim>\<open>dict(... for key, value in iterate(obj) if ...)\<close>: the pairs are tested and
  stored one after the other; \<open>keep\<close> reads the predicate's result.\<close>

fun dict_where :: "(pyval \<Rightarrow> bool) \<Rightarrow> (pyval \<Rightarrow> pyval \<Rightarrow> pyval result)
    \<Rightarrow> (pyval \<times> pyval) list \<Rightarrow> (pyval \<times> pyval) list \<Rightarrow> pyval result" where
  "dict_where keep cb acc [] = Inr (PDict acc)"
| "dict_where keep cb acc ((key, value) # ps) =
     (case cb value key of
        Inl e \<Rightarrow> Inl e
      | Inr r \<Rightarrow>
          if keep r
          then (if hashable key then dict_where keep cb (dict_set acc key value) ps
                else Inl TypeError)
          else dict_where keep cb acc ps)"

definition omit :: "fenv \<Rightarrow> pyval \<Rightarrow> pyval \<Rightarrow> pyval list \<Rightarrow> pyval result" where
  "omit fe obj callback properties =
     (case iterate obj of
        Inl e \<Rightarrow> Inl e
      | Inr ps \<Rightarrow>
          dict_where (\<lambda>r. \<not> truthy r)
            (\<lambda>value key. property_callback fe callback properties value key obj) [] ps)"

definition pick :: "fenv \<Rightarrow> pyval \<Rightarrow> pyval \<Rightarrow> pyval list \<Rightarrow> pyval result" where
  "pick fe obj callback properties =
     (case iterate obj of
        Inl e \<Rightarrow> Inl e
      | Inr ps \<Rightarrow>
          dict_where truthy
            (\<lambda>value key. property_callback fe callback properties value key obj) [] ps)"

section \<open>\<^verbatim>\<open>invert\<close>\<close>

definition invert :: "pyval \<Rightarrow> pyval result" where
  "invert obj =
     (case iterate obj of
        Inl e \<Rightarrow> Inl e
      | Inr ps \<Rightarrow> dict_of [] (map (\<lambda>(key, value). (value, key)) ps))"

section \<open>\<^verbatim>\<open>assign\<close>\<close>

text \<open>The builtin \<^verbatim>\<open>sources[-1]\<close>.\<close>

fun py_last :: "pyval list \<Rightarrow> pyval result" where
  "py_last [] = Inl IndexError"
| "py_last (x # xs) = Inr (last (x # xs))"

text \<open>
  Modelled from the spec: \<^verbatim>\<open>iteritems\<close> of \<^verbatim>\<open>pydash/_compat.py\<close>, which gives the
  pairs of key and value of a source, a mapping, in iteration order. A value without
  items has no such method.
\<close>

fun iteritems :: "pyval \<Rightarrow> (pyval \<times> pyval) list result" where
  "iteritems (PDict kvs) = Inr kvs"
| "iteritems _ = Inl AttributeError"

text \<open>The builtins \<^verbatim>\<open>obj.get(key)\<close> and \<^verbatim>\<open>obj[key] = value\<close>.\<close>

fun py_get :: "pyval \<Rightarrow> pyval \<Rightarrow> pyval result" where
  "py_get (PDict kvs) key =
     (if hashable key
      then Inr (case dict_get kvs key of Some v \<Rightarrow> v | None \<Rightarrow> PNone)
      else Inl TypeError)"
| "py_get _ key = Inl AttributeError"

fun py_setitem :: "pyval \<Rightarrow> pyval \<Rightarrow> pyval \<Rightarrow> pyval result" where
  "py_setitem (PDict kvs) key v =
     (if hashable key then Inr (PDict (dict_set kvs key v)) else Inl TypeError)"
| "py_setitem (PList xs) key v =
     (case list_index (length xs) key of
        Inr i \<Rightarrow> Inr (PList (xs[i := v]))
      | Inl e \<Rightarrow> Inl e)"
| "py_setitem _ key v = Inl TypeError"

fun assign_items :: "fenv \<Rightarrow> pyval \<Rightarrow> (pyval \<times> pyval) list \<Rightarrow> pyval \<Rightarrow> pyval result" where
  "assign_items fe obj [] callback = Inr obj"
| "assign_items fe obj ((key, value) # ps) callback =
     (case (if callback = PNone then Inr value
            else case py_get obj key of
                   Inl e \<Rightarrow> Inl e
                 | Inr old \<Rightarrow> call fe callback [old, value]) of
        Inl e \<Rightarrow> Inl e
      | Inr v \<Rightarrow>
          (case py_setitem obj key v of
             Inl e \<Rightarrow> Inl e
           | Inr obj' \<Rightarrow> assign_items fe obj' ps callback))"

fun assign_sources :: "fenv \<Rightarrow> pyval \<Rightarrow> pyval list \<Rightarrow> pyval \<Rightarrow> pyval result" where
  "assign_sources fe obj [] callback = Inr obj"
| "assign_sources fe obj (source # sources) callback =
     (case iteritems source of
        Inl e \<Rightarrow> Inl e
      | Inr ps \<Rightarrow>
          (case assign_items fe obj ps callback of
             Inl e \<Rightarrow> Inl e
           | Inr obj' \<Rightarrow> assign_sources fe obj' sources callback))"

text \<open>
  \<^verbatim>\<open>assign(obj, *sources, **kargs)\<close>: \<open>callback\<close> is \<^verbatim>\<open>kargs.get('callback')\<close>,
  \<^verbatim>\<open>None\<close> when the keyword is not given. The test
  \<^verbatim>\<open>callback is None and callable(sources[-1])\<close> reads the last source only when the
  callback is \<^verbatim>\<open>None\<close>.
\<close>

definition assign :: "fenv \<Rightarrow> pyval \<Rightarrow> pyval list \<Rightarrow> pyval \<Rightarrow> pyval result" where
  "assign fe obj sources callback =
     (case (if callback = PNone
            then (case py_last sources of
                    Inl e \<Rightarrow> Inl e
                  | Inr l \<Rightarrow> Inr (if callable l then (butlast sources, l)
                                   else (sources, callback)))
            else Inr (sources, callback)) of
        Inl e \<Rightarrow> Inl e
      | Inr (sources', callback') \<Rightarrow> assign_sources fe obj sources' callback')"

definition extend :: "fenv \<Rightarrow> pyval \<Rightarrow> pyval list \<Rightarrow> pyval \<Rightarrow> pyval result" where
  "extend = assign"

section \<open>Well-formed collections\<close>

text \<open>
  The keys of a Python dict are hashable and pairwise different under \<^verbatim>\<open>==\<close>;
  \<open>wf_keys\<close> says so of the top level of a value.
\<close>

fun distinct_keys :: "pyval list \<Rightarrow> bool" where
  "distinct_keys [] = True"
| "distinct_keys (k # ks) = (list_all (\<lambda>k'. \<not> key_eq k k') ks \<and> distinct_keys ks)"

fun wf_keys :: "pyval \<Rightarrow> bool" where
  "wf_keys (PDict kvs) =
     (distinct_keys (map fst kvs) \<and> list_all hashable (map fst kvs))"
| "wf_keys _ = True"

text \<open>An environment for concrete runs, without callables.\<close>

definition no_env :: fenv where
  "no_env f args = Inl TypeError"

section \<open>Outcomes of a callback\<close>

text \<open>Readings of a callback's outcome: it returned a truthy value, it returned a
  falsy value, it returned something other than the boolean \<^verbatim>\<open>False\<close>.\<close>

fun returns_truthy :: "pyval result \<Rightarrow> bool" where
  "returns_truthy (Inr r) = truthy r"
| "returns_truthy (Inl e) = False"

fun returns_falsy :: "pyval result \<Rightarrow> bool" where
  "returns_falsy (Inr r) = (\<not> truthy r)"
| "returns_falsy (Inl e) = False"

fun returns_not_False :: "pyval result \<Rightarrow> bool" where
  "returns_not_False (Inr r) = (r \<noteq> PBool False)"
| "returns_not_False (Inl e) = False"

definition callback_tuple :: "fenv \<Rightarrow> pyval \<Rightarrow> pyval \<Rightarrow> pyval \<times> pyval \<Rightarrow> cb_tuple" where
  "callback_tuple fe callback obj p = (make_callback fe callback (snd p) (fst p) obj, snd p, fst p, obj)"

text \<open>An environment whose callables all return their first argument.\<close>

definition first_arg_env :: fenv where
  "first_arg_env f args = (case args of [] \<Rightarrow> Inl TypeError | v # vs \<Rightarrow> Inr v)"

section \<open>A store for \<^verbatim>\<open>clone\<close>\<close>

text \<open>
  What \<^verbatim>\<open>clone\<close> promises is about storage: the result is a new object, and
  changing it does not change the input. Lists and dicts are therefore objects in a
  store, addressed by their position in it, and hold references: a reference is an
  immutable value (\<^verbatim>\<open>None\<close>, a boolean, a number, a string, a callable) or the
  address of a list or dict. Allocation adds an object at the end of the store.
\<close>

datatype ref = Imm pyval | Ptr nat

datatype hobj = HList "ref list" | HDict "(pyval \<times> ref) list"

type_synonym heap = "hobj list"

definition alloc :: "heap \<Rightarrow> hobj \<Rightarrow> ref \<times> heap" where
  "alloc h ob = (Ptr (length h), h @ [ob])"

fun refs_of :: "hobj \<Rightarrow> ref list" where
  "refs_of (HList rs) = rs"
| "refs_of (HDict kvs) = map snd kvs"

fun empty_like :: "hobj \<Rightarrow> hobj" where
  "empty_like (HList rs) = HList []"
| "empty_like (HDict kvs) = HDict []"

fun with_refs :: "hobj \<Rightarrow> ref list \<Rightarrow> hobj" where
  "with_refs (HList rs) rs' = HList rs'"
| "with_refs (HDict kvs) rs' = HDict (zip (map fst kvs) rs')"

text \<open>
  A store is well formed when every reference in it is an immutable value or an
  address of the store, and the keys of every dict are hashable and pairwise
  different.
\<close>

fun closed_ref :: "nat \<Rightarrow> ref \<Rightarrow> bool" where
  "closed_ref n (Imm v) = hashable v"
| "closed_ref n (Ptr a) = (a < n)"

fun wf_obj :: "nat \<Rightarrow> hobj \<Rightarrow> bool" where
  "wf_obj n (HList rs) = list_all (closed_ref n) rs"
| "wf_obj n (HDict kvs) =
     (distinct_keys (map fst kvs) \<and> list_all hashable (map fst kvs)
      \<and> list_all (closed_ref n) (map snd kvs))"

definition wf_heap :: "heap \<Rightarrow> bool" where
  "wf_heap h = list_all (wf_obj (length h)) h"

text \<open>
  The content of a reference, as a value: the store unfolded below it, to a given
  depth. It is \<open>None\<close> when the depth does not suffice.
\<close>

fun those_pairs :: "(pyval \<times> pyval option) list \<Rightarrow> (pyval \<times> pyval) list option" where
  "those_pairs [] = Some []"
| "those_pairs ((k, None) # kvs) = None"
| "those_pairs ((k, Some v) # kvs) = map_option ((#) (k, v)) (those_pairs kvs)"

fun value_of :: "nat \<Rightarrow> heap \<Rightarrow> ref \<Rightarrow> pyval option" where
  "value_of d h (Imm v) = Some v"
| "value_of 0 h (Ptr a) = None"
| "value_of (Suc d) h (Ptr a) =
     (if a < length h
      then (case h ! a of
              HList rs \<Rightarrow> map_option PList (those (map (value_of d h) rs))
            | HDict kvs \<Rightarrow>
                map_option PDict (those_pairs (map (\<lambda>(k, r). (k, value_of d h r)) kvs)))
      else None)"

text \<open>The addresses that can be reached from an address through the store.\<close>

inductive reach :: "heap \<Rightarrow> nat \<Rightarrow> nat \<Rightarrow> bool" for h :: heap and a :: nat where
  reach_self: "reach h a a"
| reach_step: "reach h a b \<Longrightarrow> b < length h \<Longrightarrow> Ptr c \<in> set (refs_of (h ! b)) \<Longrightarrow> reach h a c"

text \<open>
  \<^verbatim>\<open>copy.copy\<close> of the standard library: an immutable value is returned as it is, a
  list or dict is copied into a new object that holds the same references.
\<close>

fun copy_copy :: "heap \<Rightarrow> ref \<Rightarrow> (ref \<times> heap) result" where
  "copy_copy h (Imm v) = Inr (Imm v, h)"
| "copy_copy h (Ptr a) = (if a < length h then Inr (alloc h (h ! a)) else Inl IllFormedStore)"

text \<open>
  \<^verbatim>\<open>copy.deepcopy\<close> of the standard library, with its memo of the objects already
  copied: an immutable value is returned as it is; an object in the memo gives its
  copy; any other object gets a new, empty object, entered in the memo before the
  members are copied into it one after the other. Copying reads objects of the
  original only, so the model stores the members of the new object when all of them
  are copied. The first argument bounds the depth of the recursion.
\<close>

fun deepcopy :: "nat \<Rightarrow> heap \<Rightarrow> (nat \<rightharpoonup> nat) \<Rightarrow> ref \<Rightarrow> (ref \<times> (nat \<rightharpoonup> nat) \<times> heap) option"
  and deepcopy_all :: "nat \<Rightarrow> heap \<Rightarrow> (nat \<rightharpoonup> nat) \<Rightarrow> ref list
      \<Rightarrow> (ref list \<times> (nat \<rightharpoonup> nat) \<times> heap) option"
where
  "deepcopy 0 h memo r = None"
| "deepcopy (Suc n) h memo (Imm v) = Some (Imm v, memo, h)"
| "deepcopy (Suc n) h memo (Ptr a) =
     (case memo a of
        Some a' \<Rightarrow> Some (Ptr a', memo, h)
      | None \<Rightarrow>
          if a < length h
          then (case deepcopy_all n (h @ [empty_like (h ! a)]) (memo(a \<mapsto> length h))
                       (refs_of (h ! a)) of
                  None \<Rightarrow> None
                | Some (rs', memo', h') \<Rightarrow>
                    Some (Ptr (length h), memo', h'[length h := with_refs (h ! a) rs']))
          else None)"
| "deepcopy_all n h memo [] = Some ([], memo, h)"
| "deepcopy_all n h memo (r # rs) =
     (case deepcopy n h memo r of
        None \<Rightarrow> None
      | Some (r', memo1, h1) \<Rightarrow>
          (case deepcopy_all n h1 memo1 rs of
             None \<Rightarrow> None
           | Some (rs', memo2, h2) \<Rightarrow> Some (r' # rs', memo2, h2)))"

text \<open>The recursion is never deeper than the number of objects of the store plus one.\<close>

definition copy_deepcopy :: "heap \<Rightarrow> ref \<Rightarrow> (ref \<times> heap) result" where
  "copy_deepcopy h r =
     (case deepcopy (Suc (length h)) h Map.empty r of
        None \<Rightarrow> Inl IllFormedStore
      | Some (r', memo, h') \<Rightarrow> Inr (r', h'))"

text \<open>
  Modelled from the spec: \<^verbatim>\<open>iterate\<close> of \<^verbatim>\<open>pydash/utils.py\<close>, on a reference into
  the store.
\<close>

fun enumerate_refs :: "nat \<Rightarrow> ref list \<Rightarrow> (pyval \<times> ref) list" where
  "enumerate_refs i [] = []"
| "enumerate_refs i (r # rs) = (PInt (int i), r) # enumerate_refs (Suc i) rs"

fun heap_iterate :: "heap \<Rightarrow> ref \<Rightarrow> (pyval \<times> ref) list result" where
  "heap_iterate h (Imm v) = Inl TypeError"
| "heap_iterate h (Ptr a) =
     (if a < length h
      then (case h ! a of HList rs \<Rightarrow> Inr (enumerate_refs 0 rs) | HDict kvs \<Rightarrow> Inr kvs)
      else Inl IllFormedStore)"

fun heap_is_list :: "heap \<Rightarrow> ref \<Rightarrow> bool" where
  "heap_is_list h (Imm v) = False"
| "heap_is_list h (Ptr a) = (a < length h \<and> (case h ! a of HList rs \<Rightarrow> True | HDict kvs \<Rightarrow> False))"

text \<open>The builtin \<^verbatim>\<open>dict(pairs)\<close>, for pairs of a key and a reference.\<close>

fun heap_dict_of :: "(pyval \<times> ref) list \<Rightarrow> (pyval \<times> ref) list \<Rightarrow> hobj result" where
  "heap_dict_of acc [] = Inr (HDict acc)"
| "heap_dict_of acc ((k, r) # kvs) =
     (if hashable k then heap_dict_of (dict_set acc k r) kvs else Inl TypeError)"

section \<open>\<^verbatim>\<open>clone\<close> and \<^verbatim>\<open>clone_deep\<close>\<close>

text \<open>
  A callback of \<^verbatim>\<open>clone\<close> gets a reference and may do to the store whatever it
  likes.
\<close>

type_synonym heap_callback = "ref \<Rightarrow> heap \<Rightarrow> (ref \<times> heap) result"

text \<open>
  Modelled from the spec: \<^verbatim>\<open>identity\<close> of \<^verbatim>\<open>pydash/utilities.py\<close>, the default
  callback of \<^verbatim>\<open>clone\<close>, which returns its argument.
\<close>

definition identity :: heap_callback where
  "identity r h = Inr (r, h)"

text \<open>\<^verbatim>\<open>[(key, callback(val)) for key, val in iterate(value)]\<close>\<close>

fun clone_pairs :: "heap_callback \<Rightarrow> heap \<Rightarrow> (pyval \<times> ref) list \<Rightarrow> ((pyval \<times> ref) list \<times> heap) result" where
  "clone_pairs callback h [] = Inr ([], h)"
| "clone_pairs callback h ((key, val) # ps) =
     (case callback val h of
        Inl e \<Rightarrow> Inl e
      | Inr (val', h1) \<Rightarrow>
          (case clone_pairs callback h1 ps of
             Inl e \<Rightarrow> Inl e
           | Inr (obj, h2) \<Rightarrow> Inr ((key, val') # obj, h2)))"

text \<open>
  \<^verbatim>\<open>clone(value, is_deep=False, callback=None)\<close>, with \<open>None\<close> for the callback
  \<^verbatim>\<open>None\<close>. The list of pairs \<open>obj\<close> is a temporary of the call and no object of
  the store; the list or dict made from it is the new object that is returned.
\<close>

definition clone :: "heap \<Rightarrow> ref \<Rightarrow> bool \<Rightarrow> heap_callback option \<Rightarrow> (ref \<times> heap) result" where
  "clone h val is_deep callback =
     (let callback' = (case callback of None \<Rightarrow> identity | Some f \<Rightarrow> f);
          copier = (if is_deep then copy_deepcopy else copy_copy)
      in case copier h val of
           Inl e \<Rightarrow> Inl e
         | Inr (val', h1) \<Rightarrow>
             (case heap_iterate h1 val' of
                Inl e \<Rightarrow> Inl e
              | Inr ps \<Rightarrow>
                  (case clone_pairs callback' h1 ps of
                     Inl e \<Rightarrow> Inl e
                   | Inr (obj, h2) \<Rightarrow>
                       if heap_is_list h2 val'
                       then Inr (alloc h2 (HList (map snd obj)))
                       else (case heap_dict_of [] obj of
                               Inl e \<Rightarrow> Inl e
                             | Inr d \<Rightarrow> Inr (alloc h2 d)))))"

definition clone_deep :: "heap \<Rightarrow> ref \<Rightarrow> heap_callback option \<Rightarrow> (ref \<times> heap) result" where
  "clone_deep h val callback = clone h val True callback"

text \<open>A store for concrete runs: \<^verbatim>\<open>x = {'a': [1, 2], 'b': 3}\<close> at address 1, its list
  at address 0, and a list that holds itself at address 2.\<close>

definition heap0 :: heap where
  "heap0 = [HList [Imm (PInt 1), Imm (PInt 2)],
            HDict [(PStr ''a'', Ptr 0), (PStr ''b'', Imm (PInt 3))],
            HList [Ptr 2, Ptr 1]]"

section \<open>\<^verbatim>\<open>update\<close> and \<^verbatim>\<open>merge\<close>\<close>

text \<open>
  \<^verbatim>\<open>update\<close> and \<^verbatim>\<open>merge\<close> change \<open>obj\<close> in place, and what they change may be
  shared: inside \<open>obj\<close>, inside a source, or between the two. They are therefore
  functions on the store. A callable gets references and the store, and returns a
  reference and the store as it has left it.
\<close>

type_synonym henv = "nat \<Rightarrow> ref list \<Rightarrow> heap \<Rightarrow> (ref \<times> heap) result"

text \<open>Truth value testing, \<^verbatim>\<open>isinstance(value, dict)\<close> and calling, on references.\<close>

fun heap_truthy :: "heap \<Rightarrow> ref \<Rightarrow> bool" where
  "heap_truthy h (Imm v) = truthy v"
| "heap_truthy h (Ptr a) = (a < length h \<and> refs_of (h ! a) \<noteq> [])"

fun heap_is_dict :: "heap \<Rightarrow> ref \<Rightarrow> bool" where
  "heap_is_dict h (Imm v) = False"
| "heap_is_dict h (Ptr a) = (a < length h \<and> (case h ! a of HList rs \<Rightarrow> False | HDict kvs \<Rightarrow> True))"

fun heap_call :: "henv \<Rightarrow> heap \<Rightarrow> ref \<Rightarrow> ref list \<Rightarrow> (ref \<times> heap) result" where
  "heap_call fe h (Imm (PFunc f)) args = fe f args h"
| "heap_call fe h _ args = Inl TypeError"

text \<open>
  Modelled from the spec: \<^verbatim>\<open>iterate\<close> of \<^verbatim>\<open>pydash/utils.py\<close> as the lazy sequence
  it is, whose pairs are taken from the collection as it is when they are asked for.
  \<open>iterate_start\<close> is the call: it rejects a value that is no collection, and notes
  the size of a dict. \<open>iterate_next\<close> asks for the pair at a position: of a list,
  the index and the member there, until the list ends; of a dict, the item there,
  and the iterator of a dict refuses to go on when the dict has changed its size.
\<close>

fun iterate_start :: "heap \<Rightarrow> ref \<Rightarrow> nat result" where
  "iterate_start h (Imm v) = Inl TypeError"
| "iterate_start h (Ptr a) =
     (if a < length h
      then (case h ! a of HList rs \<Rightarrow> Inr 0 | HDict kvs \<Rightarrow> Inr (length kvs))
      else Inl IllFormedStore)"

fun iterate_next :: "heap \<Rightarrow> ref \<Rightarrow> nat \<Rightarrow> nat \<Rightarrow> (pyval \<times> ref) option result" where
  "iterate_next h (Imm v) size0 i = Inl TypeError"
| "iterate_next h (Ptr a) size0 i =
     (if a < length h
      then (case h ! a of
              HList rs \<Rightarrow> Inr (if i < length rs then Some (PInt (int i), rs ! i) else None)
            | HDict kvs \<Rightarrow>
                if length kvs \<noteq> size0 then Inl RuntimeError
                else Inr (if i < length kvs then Some (kvs ! i) else None))
      else Inl IllFormedStore)"

text \<open>
  Modelled from the spec: \<^verbatim>\<open>get_item\<close> of \<^verbatim>\<open>pydash/utils.py\<close> (the Item Accessor)
  for a simple key. A mapping is looked up by key, a sequence by index; an absent key
  and an index out of range give the default. A key that cannot address the object at
  all (an unhashable key, a non-integer index, an object that is no collection) is a
  type error.
\<close>

fun get_item :: "heap \<Rightarrow> ref \<Rightarrow> pyval \<Rightarrow> ref \<Rightarrow> ref result" where
  "get_item h (Imm v) key dflt = Inl TypeError"
| "get_item h (Ptr a) key dflt =
     (if a < length h
      then (case h ! a of
              HDict kvs \<Rightarrow>
                if hashable key
                then Inr (case dict_get kvs key of Some r \<Rightarrow> r | None \<Rightarrow> dflt)
                else Inl TypeError
            | HList rs \<Rightarrow>
                (case list_index (length rs) key of
                   Inr i \<Rightarrow> Inr (rs ! i)
                 | Inl IndexError \<Rightarrow> Inr dflt
                 | Inl e \<Rightarrow> Inl e))
      else Inl IllFormedStore)"

text \<open>
  Modelled from the spec: \<^verbatim>\<open>set_item\<close> of \<^verbatim>\<open>pydash/utils.py\<close> for a simple key.
  It assigns in place, to the object in the store, and creates the slot when needed:
  a new key of a mapping, or the next index of a sequence. An index further out is
  an index error.
\<close>

fun set_item :: "heap \<Rightarrow> ref \<Rightarrow> pyval \<Rightarrow> ref \<Rightarrow> heap result" where
  "set_item h (Imm v) key r = Inl TypeError"
| "set_item h (Ptr a) key r =
     (if a < length h
      then (case h ! a of
              HDict kvs \<Rightarrow>
                if hashable key then Inr (h[a := HDict (dict_set kvs key r)])
                else Inl TypeError
            | HList rs \<Rightarrow>
                if index_of key = Some (int (length rs)) then Inr (h[a := HList (rs @ [r])])
                else (case list_index (length rs) key of
                        Inr i \<Rightarrow> Inr (h[a := HList (rs[i := r])])
                      | Inl e \<Rightarrow> Inl e))
      else Inl IllFormedStore)"

text \<open>
  \<^verbatim>\<open>update(obj, source, callback=None)\<close>. \<open>update_loop\<close> is the \<^verbatim>\<open>for\<close> loop at a
  position of the iteration. The recursion of \<^verbatim>\<open>update\<close> need not end (two lists
  that each hold themselves), nor need the loop (a callback that keeps adding to the
  source): the first argument bounds the calls and the rounds of the loop that are
  left, and the result is \<open>None\<close> when they do not suffice.
\<close>

fun update :: "nat \<Rightarrow> henv \<Rightarrow> heap \<Rightarrow> ref \<Rightarrow> ref \<Rightarrow> ref \<Rightarrow> (ref \<times> heap) result option"
  and update_loop :: "nat \<Rightarrow> henv \<Rightarrow> heap \<Rightarrow> ref \<Rightarrow> ref \<Rightarrow> nat \<Rightarrow> nat \<Rightarrow> ref
      \<Rightarrow> (ref \<times> heap) result option"
where
  "update 0 fe h obj source callback = None"
| "update (Suc n) fe h obj source callback =
     (case iterate_start h source of
        Inl e \<Rightarrow> Some (Inl e)
      | Inr size0 \<Rightarrow> update_loop n fe h obj source size0 0 callback)"
| "update_loop 0 fe h obj source size0 i callback = None"
| "update_loop (Suc n) fe h obj source size0 i callback =
     (case iterate_next h source size0 i of
        Inl e \<Rightarrow> Some (Inl e)
      | Inr None \<Rightarrow> Some (Inr (obj, h))
      | Inr (Some (key, src_value)) \<Rightarrow>
          (case get_item h obj key (Imm PNone) of
             Inl e \<Rightarrow> Some (Inl e)
           | Inr obj_value \<Rightarrow>
               (let is_sequences = py_all [heap_truthy h src_value,
                                           heap_is_list h src_value,
                                           heap_is_list h obj_value];
                    is_mappings = py_all [heap_truthy h src_value,
                                          heap_is_dict h src_value,
                                          heap_is_dict h obj_value]
                in case (if (is_sequences \<or> is_mappings) \<and> \<not> heap_truthy h callback
                         then update n fe h obj_value src_value (Imm PNone)
                         else if heap_truthy h callback
                         then Some (heap_call fe h callback [obj_value, src_value])
                         else Some (Inr (src_value, h))) of
                     None \<Rightarrow> None
                   | Some (Inl e) \<Rightarrow> Some (Inl e)
                   | Some (Inr (result, h1)) \<Rightarrow>
                       (case set_item h1 obj key result of
                          Inl e \<Rightarrow> Some (Inl e)
                        | Inr h2 \<Rightarrow> update_loop n fe h2 obj source size0 (Suc i) callback))))"

text \<open>
  \<^verbatim>\<open>merge(obj, *sources, **kargs)\<close>: \<open>callback\<close> is \<^verbatim>\<open>kargs.get('callback')\<close>,
  \<^verbatim>\<open>None\<close> when the keyword is not given.
\<close>

fun merge_loop :: "nat \<Rightarrow> henv \<Rightarrow> heap \<Rightarrow> ref \<Rightarrow> ref list \<Rightarrow> ref \<Rightarrow> (ref \<times> heap) result option" where
  "merge_loop n fe h obj [] callback = Some (Inr (obj, h))"
| "merge_loop n fe h obj (source # sources) callback =
     (case update n fe h obj source callback of
        None \<Rightarrow> None
      | Some (Inl e) \<Rightarrow> Some (Inl e)
      | Some (Inr (obj', h1)) \<Rightarrow> merge_loop n fe h1 obj sources callback)"

definition merge :: "nat \<Rightarrow> henv \<Rightarrow> heap \<Rightarrow> ref \<Rightarrow> ref list \<Rightarrow> ref \<Rightarrow> (ref \<times> heap) result option" where
  "merge n fe h obj sources callback = merge_loop n fe h obj sources callback"

text \<open>Environments of callables for concrete runs: one without callables, one whose
  callables all return the string \<^verbatim>\<open>'cb'\<close> and leave the store as it is.\<close>

definition no_henv :: henv where
  "no_henv f args h = Inl TypeError"

definition cb_henv :: henv where
  "cb_henv f args h = Inr (Imm (PStr ''cb''), h)"

text \<open>Stores for concrete runs. In \<open>heap1\<close>: \<^verbatim>\<open>[1, 2]\<close> at 0, \<^verbatim>\<open>{'a': [1, 2]}\<close> at 1
  holding it, \<^verbatim>\<open>[9]\<close> at 2 and \<^verbatim>\<open>{'a': [9]}\<close> at 3 holding that.\<close>

definition heap1 :: heap where
  "heap1 = [HList [Imm (PInt 1), Imm (PInt 2)],
            HDict [(PStr ''a'', Ptr 0)],
            HList [Imm (PInt 9)],
            HDict [(PStr ''a'', Ptr 2)]]"

text \<open>In \<open>heap2\<close> one list \<^verbatim>\<open>L = [1, 2]\<close> is held twice by \<^verbatim>\<open>obj = {'a': L, 'b': L}\<close> at 1;
  the source \<^verbatim>\<open>{'a': [9], 'b': [7, 8, 6]}\<close> is at 4.\<close>

definition heap2 :: heap where
  "heap2 = [HList [Imm (PInt 1), Imm (PInt 2)],
            HDict [(PStr ''a'', Ptr 0), (PStr ''b'', Ptr 0)],
            HList [Imm (PInt 9)],
            HList [Imm (PInt 7), Imm (PInt 8), Imm (PInt 6)],
            HDict [(PStr ''a'', Ptr 2), (PStr ''b'', Ptr 3)]]"

text \<open>In \<open>heap3\<close>: \<^verbatim>\<open>{'a': [1, 2, 3], 'b': 5}\<close> at 1 and the source \<^verbatim>\<open>{'a': [7, 8]}\<close>
  at 3.\<close>

definition heap3 :: heap where
  "heap3 = [HList [Imm (PInt 1), Imm (PInt 2), Imm (PInt 3)],
            HDict [(PStr ''a'', Ptr 0), (PStr ''b'', Imm (PInt 5))],
            HList [Imm (PInt 7), Imm (PInt 8)],
            HDict [(PStr ''a'', Ptr 2)]]"

text \<open>In \<open>heap4\<close>: \<^verbatim>\<open>{'a': [1, 2], 'b': {'c': 1}}\<close> at 2 and the source
  \<^verbatim>\<open>{'a': [], 'b': {}}\<close> at 5.\<close>

definition heap4 :: heap where
  "heap4 = [HList [Imm (PInt 1), Imm (PInt 2)],
            HDict [(PStr ''c'', Imm (PInt 1))],
            HDict [(PStr ''a'', Ptr 0), (PStr ''b'', Ptr 1)],
            HList [],
            HDict [],
            HDict [(PStr ''a'', Ptr 3), (PStr ''b'', Ptr 4)]]"

text \<open>In \<open>heap5\<close>: \<^verbatim>\<open>{'a': []}\<close> at 1 and the source \<^verbatim>\<open>{'a': [9]}\<close> at 3.\<close>

definition heap5 :: heap where
  "heap5 = [HList [],
            HDict [(PStr ''a'', Ptr 0)],
            HList [Imm (PInt 9)],
            HDict [(PStr ''a'', Ptr 2)]]"

text \<open>A reference that is an immutable value.\<close>

fun is_imm :: "ref \<Rightarrow> bool" where
  "is_imm (Imm v) = True"
| "is_imm (Ptr a) = False"

text \<open>The list \<open>ds\<close> after the first \<open>i\<close> members of \<open>ss\<close> have been put over it.\<close>

definition overlay :: "nat \<Rightarrow> ref list \<Rightarrow> ref list \<Rightarrow> ref list" where
  "overlay i ss ds = take i ss @ drop i ds"

text \<open>A value of a source that gives \<^verbatim>\<open>update\<close> nothing to recurse into: an immutable
  value, or an empty list or dict that is not \<open>obj\<close> itself.\<close>

fun flat_ref :: "heap \<Rightarrow> nat \<Rightarrow> ref \<Rightarrow> bool" where
  "flat_ref h ob (Imm v) = True"
| "flat_ref h ob (Ptr e) = (e < length h \<and> e \<noteq> ob \<and> refs_of (h ! e) = [])"

section \<open>The invariant of copying\<close>

text \<open>
  The invariant of \<open>deepcopy\<close> on a store that began as \<open>h0\<close>, with the set \<open>S\<close> of
  the objects whose copy is under way: the objects of \<open>h0\<close> are as they were; the
  memo maps objects of \<open>h0\<close> to new objects, one to one; new objects refer to new
  objects only; and the copy of an object that is not under way has, member by
  member, the copies of its members.
\<close>

fun new_ref :: "nat \<Rightarrow> nat \<Rightarrow> ref \<Rightarrow> bool" where
  "new_ref n0 n (Imm v) = hashable v"
| "new_ref n0 n (Ptr c) = (n0 \<le> c \<and> c < n)"

fun rename :: "(nat \<rightharpoonup> nat) \<Rightarrow> ref \<Rightarrow> ref" where
  "rename m (Imm v) = Imm v"
| "rename m (Ptr c) = (case m c of Some c' \<Rightarrow> Ptr c' | None \<Rightarrow> Ptr c)"

fun in_memo :: "(nat \<rightharpoonup> nat) \<Rightarrow> ref \<Rightarrow> bool" where
  "in_memo m (Imm v) = True"
| "in_memo m (Ptr c) = (m c \<noteq> None)"

definition frame_ok :: "heap \<Rightarrow> heap \<Rightarrow> bool" where
  "frame_ok h0 h = (length h0 \<le> length h \<and> take (length h0) h = h0)"

definition memo_ok :: "heap \<Rightarrow> (nat \<rightharpoonup> nat) \<Rightarrow> heap \<Rightarrow> bool" where
  "memo_ok h0 m h =
     ((\<forall>a a'. m a = Some a' \<longrightarrow> a < length h0 \<and> length h0 \<le> a' \<and> a' < length h)
      \<and> (\<forall>a b a'. m a = Some a' \<longrightarrow> m b = Some a' \<longrightarrow> a = b))"

definition fresh_ok :: "heap \<Rightarrow> heap \<Rightarrow> bool" where
  "fresh_ok h0 h =
     (\<forall>b. length h0 \<le> b \<and> b < length h \<longrightarrow>
        list_all (new_ref (length h0) (length h)) (refs_of (h ! b)))"

definition done_ok :: "heap \<Rightarrow> nat set \<Rightarrow> (nat \<rightharpoonup> nat) \<Rightarrow> heap \<Rightarrow> bool" where
  "done_ok h0 S m h =
     (\<forall>a a'. m a = Some a' \<and> a \<notin> S \<longrightarrow>
        h ! a' = with_refs (h0 ! a) (map (rename m) (refs_of (h0 ! a)))
        \<and> list_all (in_memo m) (refs_of (h0 ! a)))"

definition copy_inv :: "heap \<Rightarrow> nat set \<Rightarrow> (nat \<rightharpoonup> nat) \<Rightarrow> heap \<Rightarrow> bool" where
  "copy_inv h0 S m h = (frame_ok h0 h \<and> memo_ok h0 m h \<and> fresh_ok h0 h \<and> done_ok h0 S m h)"


text \<open>What a call of \<open>deepcopy\<close> establishes.\<close>

definition copied :: "heap \<Rightarrow> nat set \<Rightarrow> (nat \<rightharpoonup> nat) \<Rightarrow> heap \<Rightarrow> (nat \<rightharpoonup> nat) \<Rightarrow> heap \<Rightarrow> bool" where
  "copied h0 S m h m' h' = (copy_inv h0 S m' h' \<and> m \<subseteq>\<^sub>m m' \<and> length h \<le> length h')"

section \<open>Properties of keys and slots\<close>

lemma key_eq_refl: "key_eq k k"
  by (simp add: key_eq_def split: option.splits)

lemma key_eq_sym: "key_eq a b \<Longrightarrow> key_eq b a"
  by (auto simp: key_eq_def split: option.splits)

lemma key_eq_trans: "key_eq a b \<Longrightarrow> key_eq b c \<Longrightarrow> key_eq a c"
  by (auto simp: key_eq_def split: option.splits)

lemma key_eq_left: "key_eq a b \<Longrightarrow> key_eq a c \<Longrightarrow> key_eq b c"
  by (auto simp: key_eq_def split: option.splits)

lemma dict_get_set_same: "dict_get (dict_set kvs k v) k = Some v"
  by (induction kvs) (auto simp: key_eq_refl)

lemma dict_get_set_other:
  "\<not> key_eq k' k \<Longrightarrow> dict_get (dict_set kvs k' v) k = dict_get kvs k"
  by (induction kvs) (auto dest: key_eq_left)

lemma list_index_nat:
  "list_index n (PInt (int i)) = (if i < n then Inr i else Inl IndexError)"
  by (simp add: list_index_def)

lemma key_eq_PInt [simp]: "key_eq (PInt i) (PInt j) = (i = j)"
  by (simp add: key_eq_def)

lemma distinct_keys_enumerate:
  "distinct_keys (map fst (enumerate_from i xs))"
    and enumerate_keys_ge: "list_all (\<lambda>k. \<exists>j\<ge>i. k = PInt (int j)) (map fst (enumerate_from i xs))"
proof (induction xs arbitrary: i)
  case Nil
  { case 1 show ?case by simp }
  { case 2 show ?case by simp }
next
  case (Cons x xs)
  { case 1
    have "list_all (\<lambda>k'. \<not> key_eq (PInt (int i)) k') (map fst (enumerate_from (Suc i) xs))"
      using Cons.IH(2) [of "Suc i"] by (auto simp: list_all_iff)
    then show ?case using Cons.IH(1) by simp }
  { case 2
    show ?case using Cons.IH(2) [of "Suc i"] by (auto simp: list_all_iff) }
qed

lemma iter_callback_tuples:
  "iterate obj = Inr ps \<Longrightarrow> iter_callback fe obj cb = Inr (map (callback_tuple fe cb obj) ps)"
  by (simp add: iter_callback_def callback_tuple_def case_prod_beta)

lemma find_key_loop_skip:
  "list_all (\<lambda>p. returns_falsy (make_callback fe cb (snd p) (fst p) obj)) pre \<Longrightarrow>
   find_key_loop (map (callback_tuple fe cb obj) (pre @ rest))
     = find_key_loop (map (callback_tuple fe cb obj) rest)"
proof (induction pre)
  case Nil
  then show ?case by simp
next
  case (Cons p pre)
  from Cons.prems obtain r where "make_callback fe cb (snd p) (fst p) obj = Inr r" "\<not> truthy r"
    by (cases "make_callback fe cb (snd p) (fst p) obj") auto
  with Cons show ?case by (simp add: callback_tuple_def)
qed

lemma for_in_loop_skip:
  "list_all (\<lambda>p. returns_not_False (make_callback fe cb (snd p) (fst p) obj)) pre \<Longrightarrow>
   for_in_loop (map (callback_tuple fe cb obj) (pre @ rest)) seen
     = for_in_loop (map (callback_tuple fe cb obj) rest) (seen @ pre)"
proof (induction pre arbitrary: seen)
  case Nil
  then show ?case by simp
next
  case (Cons p pre)
  from Cons.prems obtain r where "make_callback fe cb (snd p) (fst p) obj = Inr r" "r \<noteq> PBool False"
    by (cases "make_callback fe cb (snd p) (fst p) obj") auto
  with Cons.prems Cons.IH [of "seen @ [p]"] show ?case by (simp add: callback_tuple_def)
qed

lemma dict_set_fresh:
  "list_all (\<lambda>k'. \<not> key_eq k' k) (map fst acc) \<Longrightarrow> dict_set acc k v = acc @ [(k, v)]"
  by (induction acc) auto

lemma distinct_keys_snoc:
  "distinct_keys (ks @ [k]) = (distinct_keys ks \<and> list_all (\<lambda>k'. \<not> key_eq k' k) ks)"
  by (induction ks) auto

lemma distinct_keys_filter:
  "distinct_keys (map fst ps) \<Longrightarrow> distinct_keys (map fst (filter P ps))"
  by (induction ps) (auto simp: list_all_iff)

lemma dict_where_filter:
  assumes "distinct_keys (map fst (acc @ ps))" "list_all hashable (map fst ps)"
    and "list_all (\<lambda>p. \<not> isl (cb (snd p) (fst p))) ps"
  shows "dict_where keep cb acc ps
           = Inr (PDict (acc @ filter (\<lambda>p. keep (projr (cb (snd p) (fst p)))) ps))"
  using assms
proof (induction ps arbitrary: acc)
  case Nil
  then show ?case by simp
next
  case (Cons p ps)
  obtain k v where p: "p = (k, v)" by (cases p)
  from Cons.prems(3) p obtain r where r: "cb v k = Inr r" by (cases "cb v k") auto
  have d: "distinct_keys (map fst acc @ [k] @ map fst ps)" using Cons.prems(1) p by simp
  show ?case
  proof (cases "keep r")
    case True
    have fresh: "list_all (\<lambda>k'. \<not> key_eq k' k) (map fst acc)"
      using Cons.prems(1) p by (induction acc) (auto simp: list_all_iff)
    have "distinct_keys (map fst ((acc @ [(k, v)]) @ ps))" using Cons.prems(1) p by simp
    from Cons.IH [OF this] Cons.prems(2,3) p r True dict_set_fresh [OF fresh, of v]
    show ?thesis by simp
  next
    case False
    have "distinct_keys (map fst (acc @ ps))" using Cons.prems(1) p
      by (induction acc) (auto simp: list_all_iff)
    from Cons.IH [OF this] Cons.prems(2,3) p r False show ?thesis by simp
  qed
qed

lemma iterate_wf:
  assumes "iterate obj = Inr ps" "wf_keys obj"
  shows "distinct_keys (map fst ps) \<and> list_all hashable (map fst ps)"
proof (cases obj)
  case (PList xs)
  have "list_all hashable (map fst (enumerate_from i xs))" for i
    by (induction xs arbitrary: i) auto
  with assms PList show ?thesis by (auto simp: distinct_keys_enumerate)
qed (use assms in auto)

lemma distinct_keys_fst_eq:
  "distinct_keys (map fst ps) \<Longrightarrow> p \<in> set ps \<Longrightarrow> q \<in> set ps \<Longrightarrow> key_eq (fst p) (fst q) \<Longrightarrow> p = q"
  by (induction ps) (auto simp: list_all_iff dest: key_eq_sym)

lemma dict_get_set_eq: "key_eq k x \<Longrightarrow> dict_get (dict_set acc k v) x = Some v"
proof (induction acc)
  case Nil
  then show ?case by simp
next
  case (Cons p acc)
  obtain a b where p: "p = (a, b)" by (cases p)
  from Cons.prems have "key_eq a k = key_eq a x"
    using key_eq_trans key_eq_sym by blast
  with Cons p show ?case by simp
qed

lemma dict_of_fold:
  "list_all hashable (map fst ps) \<Longrightarrow>
   dict_of acc ps = Inr (PDict (fold (\<lambda>p a. dict_set a (fst p) (snd p)) ps acc))"
  by (induction ps arbitrary: acc) auto

lemma dict_get_fold_other:
  "list_all (\<lambda>p. \<not> key_eq (fst p) x) ps \<Longrightarrow>
   dict_get (fold (\<lambda>p a. dict_set a (fst p) (snd p)) ps acc) x = dict_get acc x"
  by (induction ps arbitrary: acc) (auto simp: dict_get_set_other)

lemma dict_of_distinct:
  "distinct_keys (map fst (acc @ ps)) \<Longrightarrow> list_all hashable (map fst ps) \<Longrightarrow>
   dict_of acc ps = Inr (PDict (acc @ ps))"
proof (induction ps arbitrary: acc)
  case Nil
  then show ?case by simp
next
  case (Cons p ps)
  obtain k v where p: "p = (k, v)" by (cases p)
  have fresh: "list_all (\<lambda>k'. \<not> key_eq k' k) (map fst acc)"
    using Cons.prems(1) p by (induction acc) (auto simp: list_all_iff)
  have "distinct_keys (map fst ((acc @ [(k, v)]) @ ps))" using Cons.prems(1) p by simp
  from Cons.IH [OF this] Cons.prems(2) p dict_set_fresh [OF fresh, of v]
  show ?case by simp
qed

section \<open>Properties of the store and of copying\<close>

lemma wf_heap_obj: "wf_heap h \<Longrightarrow> a < length h \<Longrightarrow> wf_obj (length h) (h ! a)"
  by (simp add: wf_heap_def list_all_length)

lemma wf_obj_refs: "wf_obj n ob \<Longrightarrow> r \<in> set (refs_of ob) \<Longrightarrow> closed_ref n r"
  by (cases ob) (auto simp: list_all_iff)

lemma map_values_cong:
  "(\<And>k r. (k, r) \<in> set kvs \<Longrightarrow> f r = g r) \<Longrightarrow>
   map (\<lambda>(k, r). (k, f r)) kvs = map (\<lambda>(k, r). (k, g r)) kvs"
  by (induction kvs) auto

text \<open>A store that agrees with a well-formed one on its addresses gives the same
  content to its references.\<close>

lemma value_of_agree:
  assumes "wf_heap h0" "length h0 \<le> length h1" "\<And>a. a < length h0 \<Longrightarrow> h1 ! a = h0 ! a"
    and "closed_ref (length h0) r"
  shows "value_of d h1 r = value_of d h0 r"
  using assms(4)
proof (induction d arbitrary: r)
  case 0
  then show ?case by (cases r) auto
next
  case (Suc d)
  show ?case
  proof (cases r)
    case (Imm v)
    then show ?thesis by simp
  next
    case (Ptr a)
    with Suc.prems have a: "a < length h0" by simp
    then have eq: "h1 ! a = h0 ! a" by (rule assms(3))
    have cl: "closed_ref (length h0) r'" if "r' \<in> set (refs_of (h0 ! a))" for r'
      using wf_obj_refs [OF wf_heap_obj [OF assms(1) a] that] .
    show ?thesis
    proof (cases "h0 ! a")
      case (HList rs)
      have eqm: "map (value_of d h1) rs = map (value_of d h0) rs"
        using cl HList by (intro map_cong) (auto intro: Suc.IH)
      from Ptr a eq HList assms(2) show ?thesis by (simp add: eqm)
    next
      case (HDict kvs)
      have eqm: "map (\<lambda>(k, r). (k, value_of d h1 r)) kvs
          = map (\<lambda>(k, r). (k, value_of d h0 r)) kvs"
        using cl HDict by (intro map_values_cong) (force intro: Suc.IH)
      from Ptr a eq HDict assms(2) show ?thesis by (simp add: eqm)
    qed
  qed
qed

lemma clone_pairs_identity: "clone_pairs identity h ps = Inr (ps, h)"
  by (induction ps) (auto simp: identity_def)

lemma snd_enumerate_refs: "map snd (enumerate_refs i rs) = rs"
  by (induction rs arbitrary: i) auto

lemma heap_dict_of_distinct:
  "distinct_keys (map fst (acc @ ps)) \<Longrightarrow> list_all hashable (map fst ps) \<Longrightarrow>
   heap_dict_of acc ps = Inr (HDict (acc @ ps))"
proof (induction ps arbitrary: acc)
  case Nil
  then show ?case by simp
next
  case (Cons p ps)
  obtain k v where p: "p = (k, v)" by (cases p)
  have fresh: "list_all (\<lambda>k'. \<not> key_eq k' k) (map fst acc)"
    using Cons.prems(1) p by (induction acc) (auto simp: list_all_iff)
  have "distinct_keys (map fst ((acc @ [(k, v)]) @ ps))" using Cons.prems(1) p by simp
  from Cons.IH [OF this] Cons.prems(2) p dict_set_fresh [OF fresh, of v]
  show ?case by simp
qed

text \<open>What \<^verbatim>\<open>clone\<close> builds from the copy the copier has made, with the default callback:
  one more object with the members of that copy.\<close>

lemma clone_from_copy:
  assumes "a' < length h1"
    and "\<And>kvs. h1 ! a' = HDict kvs \<Longrightarrow> distinct_keys (map fst kvs) \<and> list_all hashable (map fst kvs)"
    and "copier h val = Inr (Ptr a', h1)"
    and "copier = (if is_deep then copy_deepcopy else copy_copy)"
  shows "clone h val is_deep None = Inr (Ptr (length h1), h1 @ [h1 ! a'])"
proof (cases "h1 ! a'")
  case (HList rs)
  with assms(1,3,4) show ?thesis
    by (simp add: clone_def clone_pairs_identity snd_enumerate_refs alloc_def)
next
  case (HDict kvs)
  with assms(2) have "heap_dict_of [] kvs = Inr (HDict ([] @ kvs))"
    by (intro heap_dict_of_distinct) simp_all
  with HDict assms(1,3,4) show ?thesis
    by (simp add: clone_def clone_pairs_identity alloc_def)
qed

lemma clone_shallow:
  assumes "wf_heap h" "a < length h"
  shows "clone h (Ptr a) False None = Inr (Ptr (Suc (length h)), h @ [h ! a, h ! a])"
proof -
  have c: "copy_copy h (Ptr a) = Inr (Ptr (length h), h @ [h ! a])"
    using assms(2) by (simp add: alloc_def)
  have "clone h (Ptr a) False None
      = Inr (Ptr (length (h @ [h ! a])), (h @ [h ! a]) @ [(h @ [h ! a]) ! length h])"
  proof (rule clone_from_copy [where copier = copy_copy])
    show "length h < length (h @ [h ! a])" by simp
    show "copy_copy h (Ptr a) = Inr (Ptr (length h), h @ [h ! a])" by (rule c)
    show "copy_copy = (if False then copy_deepcopy else copy_copy)" by simp
    fix kvs assume "(h @ [h ! a]) ! length h = HDict kvs"
    then have "h ! a = HDict kvs" by simp
    with wf_heap_obj [OF assms] show "distinct_keys (map fst kvs) \<and> list_all hashable (map fst kvs)"
      by simp
  qed
  then show ?thesis by simp
qed

lemma frame_nth: "frame_ok h0 h \<Longrightarrow> a < length h0 \<Longrightarrow> h ! a = h0 ! a"
  unfolding frame_ok_def by (metis nth_take)

lemma new_ref_mono: "new_ref n0 n r \<Longrightarrow> n \<le> n' \<Longrightarrow> new_ref n0 n' r"
  by (cases r) auto

lemma rename_mono: "in_memo m r \<Longrightarrow> m \<subseteq>\<^sub>m m' \<Longrightarrow> rename m' r = rename m r \<and> in_memo m' r"
  by (cases r) (auto simp: map_le_def dom_def split: option.splits)

lemma rename_mono_list:
  "list_all (in_memo m) rs \<Longrightarrow> m \<subseteq>\<^sub>m m' \<Longrightarrow>
   map (rename m') rs = map (rename m) rs \<and> list_all (in_memo m') rs"
  by (induction rs) (auto dest: rename_mono)

lemma rename_new:
  "memo_ok h0 m h \<Longrightarrow> in_memo m r \<Longrightarrow> closed_ref (length h0) r \<Longrightarrow>
   new_ref (length h0) (length h) (rename m r)"
  by (cases r) (auto simp: memo_ok_def)

lemma refs_with_refs:
  "length rs' = length (refs_of ob) \<Longrightarrow> refs_of (with_refs ob rs') = rs'"
  by (cases ob) auto

lemma card_unvisited:
  assumes "a < (n0::nat)" "m a = None" "card ({..<n0} - dom m) < Suc n"
  shows "card ({..<n0} - dom (m(a \<mapsto> a'))) < n"
proof -
  let ?X = "{..<n0} - dom m"
  have e: "{..<n0} - dom (m(a \<mapsto> a')) = ?X - {a}" by auto
  have f: "finite ?X" by simp
  have i: "a \<in> ?X" using assms(1,2) by auto
  have "card (?X - {a}) = card ?X - 1" using i by (rule card_Diff_singleton)
  moreover have "0 < card ?X" using f i by (auto simp: card_gt_0_iff)
  ultimately show ?thesis using assms(3) unfolding e by linarith
qed

lemma card_unvisited_mono:
  assumes "m \<subseteq>\<^sub>m m'" "card ({..<n0::nat} - dom m) < n"
  shows "card ({..<n0} - dom m') < n"
proof -
  have "{..<n0} - dom m' \<subseteq> {..<n0} - dom m" using assms(1) by (auto dest: map_le_implies_dom_le)
  moreover have "finite ({..<n0} - dom m)" by simp
  ultimately have "card ({..<n0} - dom m') \<le> card ({..<n0} - dom m)"
    by (rule card_mono [rotated])
  with assms(2) show ?thesis by simp
qed

lemma copy_inv_alloc:
  assumes inv: "copy_inv h0 S m h" and a: "a < length h0" "m a = None"
  shows "copy_inv h0 (insert a S) (m(a \<mapsto> length h)) (h @ [empty_like ob])"
proof -
  let ?m = "m(a \<mapsto> length h)" and ?h = "h @ [empty_like ob]"
  from inv have fr: "frame_ok h0 h" and mo: "memo_ok h0 m h"
    and fo: "fresh_ok h0 h" and don: "done_ok h0 S m h"
    by (simp_all add: copy_inv_def)
  have 1: "frame_ok h0 ?h" using fr by (simp add: frame_ok_def)
  have 2: "memo_ok h0 ?m ?h"
    using mo fr a unfolding memo_ok_def frame_ok_def
    by (auto simp: less_Suc_eq split: if_splits)
  have 3: "fresh_ok h0 ?h"
    unfolding fresh_ok_def
  proof (intro allI impI)
    fix b assume b: "length h0 \<le> b \<and> b < length ?h"
    show "list_all (new_ref (length h0) (length ?h)) (refs_of (?h ! b))"
    proof (cases "b < length h")
      case True
      with fo b have "list_all (new_ref (length h0) (length h)) (refs_of (h ! b))"
        by (simp add: fresh_ok_def)
      then show ?thesis using True
        by (auto simp: list_all_iff nth_append intro: new_ref_mono)
    next
      case False
      with b have "b = length h" by simp
      then show ?thesis by (cases ob) simp_all
    qed
  qed
  have 4: "done_ok h0 (insert a S) ?m ?h"
    unfolding done_ok_def
  proof (intro allI impI)
    fix b b' assume "?m b = Some b' \<and> b \<notin> insert a S"
    then have b: "m b = Some b'" "b \<notin> S" "b \<noteq> a" by (auto split: if_splits)
    with don have d: "h ! b' = with_refs (h0 ! b) (map (rename m) (refs_of (h0 ! b)))"
      "list_all (in_memo m) (refs_of (h0 ! b))" by (auto simp: done_ok_def)
    have le: "m \<subseteq>\<^sub>m ?m" using a(2) by (auto simp: map_le_def)
    from rename_mono_list [OF d(2) le] have
      r: "map (rename ?m) (refs_of (h0 ! b)) = map (rename m) (refs_of (h0 ! b))"
      and i: "list_all (in_memo ?m) (refs_of (h0 ! b))" by simp_all
    have "b' < length h" using mo b(1) by (auto simp: memo_ok_def)
    then have hb: "?h ! b' = h ! b'" by (simp add: nth_append)
    show "?h ! b' = with_refs (h0 ! b) (map (rename ?m) (refs_of (h0 ! b)))
        \<and> list_all (in_memo ?m) (refs_of (h0 ! b))"
      unfolding r using hb d(1) i by simp
  qed
  from 1 2 3 4 show ?thesis by (simp add: copy_inv_def)
qed

lemma copy_inv_fill:
  assumes inv: "copy_inv h0 (insert a S) m h" and a: "m a = Some a'"
    and cl: "list_all (closed_ref (length h0)) (refs_of (h0 ! a))"
    and im: "list_all (in_memo m) (refs_of (h0 ! a))"
  shows "copy_inv h0 S m (h[a' := with_refs (h0 ! a) (map (rename m) (refs_of (h0 ! a)))])"
proof -
  let ?ob = "with_refs (h0 ! a) (map (rename m) (refs_of (h0 ! a)))"
  let ?h = "h[a' := ?ob]"
  from inv have fr: "frame_ok h0 h" and mo: "memo_ok h0 m h"
    and fo: "fresh_ok h0 h" and don: "done_ok h0 (insert a S) m h"
    by (simp_all add: copy_inv_def)
  from mo a have a': "length h0 \<le> a'" "a' < length h" by (auto simp: memo_ok_def)
  have 1: "frame_ok h0 ?h" using fr a' by (simp add: frame_ok_def)
  have 2: "memo_ok h0 m ?h" using mo by (simp add: memo_ok_def)
  have refs: "refs_of ?ob = map (rename m) (refs_of (h0 ! a))"
    by (rule refs_with_refs) simp
  have new: "list_all (new_ref (length h0) (length h)) (refs_of ?ob)"
    unfolding refs using cl im mo by (auto simp: list_all_iff intro: rename_new)
  have 3: "fresh_ok h0 ?h"
    unfolding fresh_ok_def
  proof (intro allI impI)
    fix b assume b: "length h0 \<le> b \<and> b < length ?h"
    show "list_all (new_ref (length h0) (length ?h)) (refs_of (?h ! b))"
    proof (cases "b = a'")
      case True
      with new a' show ?thesis by simp
    next
      case False
      with fo b show ?thesis by (simp add: fresh_ok_def)
    qed
  qed
  have 4: "done_ok h0 S m ?h"
    unfolding done_ok_def
  proof (intro allI impI)
    fix b b' assume b: "m b = Some b' \<and> b \<notin> S"
    show "?h ! b' = with_refs (h0 ! b) (map (rename m) (refs_of (h0 ! b)))
        \<and> list_all (in_memo m) (refs_of (h0 ! b))"
    proof (cases "b = a")
      case True
      with b a have "b' = a'" by simp
      with True a' im show ?thesis by simp
    next
      case False
      with b a mo have "b' \<noteq> a'" by (auto simp: memo_ok_def)
      moreover from False b don
      have "h ! b' = with_refs (h0 ! b) (map (rename m) (refs_of (h0 ! b)))
        \<and> list_all (in_memo m) (refs_of (h0 ! b))" by (simp add: done_ok_def)
      ultimately show ?thesis by simp
    qed
  qed
  from 1 2 3 4 show ?thesis by (simp add: copy_inv_def)
qed

lemma deepcopy_total:
  assumes wf: "wf_heap h0"
  shows "copy_inv h0 S m h \<Longrightarrow> closed_ref (length h0) r \<Longrightarrow>
         card ({..<length h0} - dom m) < n \<Longrightarrow>
         \<exists>m' h'. deepcopy n h m r = Some (rename m' r, m', h')
                 \<and> copied h0 S m h m' h' \<and> in_memo m' r"
    and "copy_inv h0 S m h \<Longrightarrow> list_all (closed_ref (length h0)) rs \<Longrightarrow>
         card ({..<length h0} - dom m) < n \<Longrightarrow>
         \<exists>m' h'. deepcopy_all n h m rs = Some (map (rename m') rs, m', h')
                 \<and> copied h0 S m h m' h' \<and> list_all (in_memo m') rs"
proof (induction n h m r and n h m rs arbitrary: S and S rule: deepcopy_deepcopy_all.induct)
  case (1 h memo r)
  then show ?case by simp
next
  case (2 n h memo v)
  then show ?case by (simp add: copied_def)
next
  case (3 n h memo a)
  note inv = \<open>copy_inv h0 S memo h\<close>
  from 3 have a: "a < length h0" by simp
  from inv have fr: "frame_ok h0 h" by (simp add: copy_inv_def)
  then have ah: "a < length h" using a by (simp add: frame_ok_def)
  have ha: "h ! a = h0 ! a" using frame_nth [OF fr a] .
  show ?case
  proof (cases "memo a")
    case (Some a')
    then show ?thesis using inv by (simp add: copied_def)
  next
    case None
    let ?m1 = "memo(a \<mapsto> length h)" and ?h1 = "h @ [empty_like (h ! a)]"
    have inv1: "copy_inv h0 (insert a S) ?m1 ?h1"
      using copy_inv_alloc [OF inv a None] .
    have cl: "list_all (closed_ref (length h0)) (refs_of (h ! a))"
      using wf_obj_refs [OF wf_heap_obj [OF wf a]] ha by (simp add: list_all_iff)
    have cd: "card ({..<length h0} - dom ?m1) < n"
      using card_unvisited [of a "length h0" memo n "length h"] a None 3(4) by simp
    from 3(1) [OF None ah inv1 cl cd] obtain m' h' where
      dc: "deepcopy_all n ?h1 ?m1 (refs_of (h ! a)) = Some (map (rename m') (refs_of (h ! a)), m', h')"
      and cp: "copied h0 (insert a S) ?m1 ?h1 m' h'"
      and im: "list_all (in_memo m') (refs_of (h ! a))" by blast
    from cp have inv': "copy_inv h0 (insert a S) m' h'" and le: "?m1 \<subseteq>\<^sub>m m'"
      and len: "length ?h1 \<le> length h'" by (simp_all add: copied_def)
    have ma: "m' a = Some (length h)" using le by (auto simp: map_le_def)
    let ?h2 = "h'[length h := with_refs (h ! a) (map (rename m') (refs_of (h ! a)))]"
    have inv2: "copy_inv h0 S m' ?h2"
      using copy_inv_fill [OF inv' ma] cl im ha by simp
    have "memo \<subseteq>\<^sub>m ?m1" using None by (auto simp: map_le_def)
    then have le2: "memo \<subseteq>\<^sub>m m'" using le by (rule map_le_trans)
    have "deepcopy (Suc n) h memo (Ptr a) = Some (Ptr (length h), m', ?h2)"
      using None ah dc by simp
    moreover have "rename m' (Ptr a) = Ptr (length h)" using ma by simp
    moreover have "copied h0 S memo h m' ?h2"
      using inv2 le2 len by (simp add: copied_def)
    moreover have "in_memo m' (Ptr a)" using ma by simp
    ultimately show ?thesis by (metis (no_types, lifting))
  qed
next
  case (4 n h memo)
  then show ?case by (simp add: copied_def)
next
  case (5 n h memo r rs)
  note inv = \<open>copy_inv h0 S memo h\<close>
  from 5(4) have clr: "closed_ref (length h0) r"
    and clrs: "list_all (closed_ref (length h0)) rs" by simp_all
  from 5(1) [OF inv clr 5(5)] obtain m1 h1 where
    d1: "deepcopy n h memo r = Some (rename m1 r, m1, h1)"
    and c1: "copied h0 S memo h m1 h1" and i1: "in_memo m1 r" by blast
  from c1 have inv1: "copy_inv h0 S m1 h1" and le1: "memo \<subseteq>\<^sub>m m1"
    and len1: "length h \<le> length h1" by (simp_all add: copied_def)
  have cd1: "card ({..<length h0} - dom m1) < n"
    using card_unvisited_mono [of memo m1 "length h0" n] le1 5(5) by simp
  from 5(2) [OF d1 refl refl inv1 clrs cd1] obtain m2 h2 where
    d2: "deepcopy_all n h1 m1 rs = Some (map (rename m2) rs, m2, h2)"
    and c2: "copied h0 S m1 h1 m2 h2" and i2: "list_all (in_memo m2) rs" by blast
  from c2 have inv2: "copy_inv h0 S m2 h2" and le2: "m1 \<subseteq>\<^sub>m m2"
    and len2: "length h1 \<le> length h2" by (simp_all add: copied_def)
  from rename_mono [OF i1 le2] have r2: "rename m2 r = rename m1 r" "in_memo m2 r" by simp_all
  have "deepcopy_all n h memo (r # rs) = Some (map (rename m2) (r # rs), m2, h2)"
    using d1 d2 r2 by simp
  moreover have "copied h0 S memo h m2 h2"
    using inv2 map_le_trans [OF le1 le2] len1 len2 by (simp add: copied_def)
  moreover have "list_all (in_memo m2) (r # rs)" using r2 i2 by simp
  ultimately show ?case by blast
qed

lemma copy_inv_init: "copy_inv h0 {} Map.empty h0"
  by (auto simp: copy_inv_def frame_ok_def memo_ok_def fresh_ok_def done_ok_def)

lemma with_refs_rename:
  "ob = HDict kvs \<Longrightarrow>
   with_refs ob (map f (refs_of ob)) = HDict (map (\<lambda>(k, r). (k, f r)) kvs)"
  by (induction kvs arbitrary: ob) auto

lemma map_pairs_comp:
  "(\<And>k r. (k, r) \<in> set kvs \<Longrightarrow> g (f r) = e r) \<Longrightarrow>
   map (\<lambda>(k, r). (k, g r)) (map (\<lambda>(k, r). (k, f r)) kvs) = map (\<lambda>(k, r). (k, e r)) kvs"
  by (induction kvs) auto

text \<open>An object that holds, member by member, the renamed members of an object of the
  original has the content of that object, when the members have.\<close>

lemma value_of_with_refs:
  assumes "c' < length H" "c < length h0"
    and "H ! c' = with_refs (h0 ! c) (map (rename m) (refs_of (h0 ! c)))"
    and "\<And>r. r \<in> set (refs_of (h0 ! c)) \<Longrightarrow> value_of d H (rename m r) = value_of d h0 r"
  shows "value_of (Suc d) H (Ptr c') = value_of (Suc d) h0 (Ptr c)"
proof (cases "h0 ! c")
  case (HList rs)
  have eqm: "map (value_of d H) (map (rename m) rs) = map (value_of d h0) rs"
    using assms(4) HList by (induction rs) auto
  have ob: "H ! c' = HList (map (rename m) rs)" using assms(3) HList by simp
  have "value_of (Suc d) H (Ptr c')
      = map_option PList (those (map (value_of d H) (map (rename m) rs)))"
    using assms(1) ob by (simp del: map_map)
  then show ?thesis unfolding eqm using assms(2) HList by simp
next
  case (HDict kvs)
  have eqm: "map (\<lambda>(k, r). (k, value_of d H r)) (map (\<lambda>(k, r). (k, rename m r)) kvs)
      = map (\<lambda>(k, r). (k, value_of d h0 r)) kvs"
    using assms(4) HDict by (intro map_pairs_comp) force
  have ob: "H ! c' = HDict (map (\<lambda>(k, r). (k, rename m r)) kvs)"
    using assms(3) with_refs_rename [OF HDict] by simp
  have "value_of (Suc d) H (Ptr c')
      = map_option PDict (those_pairs (map (\<lambda>(k, r). (k, value_of d H r))
            (map (\<lambda>(k, r). (k, rename m r)) kvs)))"
    using assms(1) ob by (simp del: map_map)
  then show ?thesis unfolding eqm using assms(2) HDict by simp
qed

lemma value_of_copy:
  assumes mo: "memo_ok h0 m h'" and don: "done_ok h0 {} m h'"
    and ext: "length h' \<le> length H" "\<And>b. b < length h' \<Longrightarrow> H ! b = h' ! b"
  shows "in_memo m r \<Longrightarrow> value_of d H (rename m r) = value_of d h0 r"
proof (induction d arbitrary: r)
  case 0
  then show ?case by (cases r) auto
next
  case (Suc d)
  show ?case
  proof (cases r)
    case (Imm v)
    then show ?thesis by simp
  next
    case (Ptr c)
    with Suc.prems obtain c' where c': "m c = Some c'" by auto
    with mo have b: "c < length h0" "c' < length h'" by (auto simp: memo_ok_def)
    from don c' have ob: "h' ! c' = with_refs (h0 ! c) (map (rename m) (refs_of (h0 ! c)))"
      and im: "list_all (in_memo m) (refs_of (h0 ! c))" by (auto simp: done_ok_def)
    have "value_of (Suc d) H (Ptr c') = value_of (Suc d) h0 (Ptr c)"
    proof (rule value_of_with_refs [where m = m])
      show "c' < length H" using b ext(1) by simp
      show "c < length h0" by (rule b)
      show "H ! c' = with_refs (h0 ! c) (map (rename m) (refs_of (h0 ! c)))"
        using ob ext(2) [OF b(2)] by simp
      fix r assume "r \<in> set (refs_of (h0 ! c))"
      with im have "in_memo m r" by (simp add: list_all_iff)
      then show "value_of d H (rename m r) = value_of d h0 r" by (rule Suc.IH)
    qed
    with Ptr c' show ?thesis by simp
  qed
qed

lemma reach_fresh:
  assumes "fresh_ok h0 H" "reach H r b" "length h0 \<le> r" "r < length H"
  shows "length h0 \<le> b \<and> b < length H"
  using assms(2)
proof (induction rule: reach.induct)
  case reach_self
  then show ?case using assms(3,4) by simp
next
  case (reach_step b c)
  with assms(1) have "list_all (new_ref (length h0) (length H)) (refs_of (H ! b))"
    by (simp add: fresh_ok_def)
  with reach_step(3) have "new_ref (length h0) (length H) (Ptr c)"
    by (auto simp: list_all_iff)
  then show ?case by simp
qed

text \<open>Replacing an object outside a well-formed store leaves the store and the content
  of its references as they are.\<close>

lemma overwrite_outside:
  assumes "wf_heap h0" "frame_ok h0 H" "length h0 \<le> b" "closed_ref (length h0) r"
  shows "take (length h0) (H[b := ob]) = h0 \<and> value_of d (H[b := ob]) r = value_of d h0 r"
proof -
  have 1: "take (length h0) (H[b := ob]) = h0" using assms(2,3) by (simp add: frame_ok_def)
  have "value_of d (H[b := ob]) r = value_of d h0 r"
  proof (rule value_of_agree [OF assms(1) _ _ assms(4)])
    show "length h0 \<le> length (H[b := ob])" using assms(2) by (simp add: frame_ok_def)
    fix a assume "a < length h0"
    then show "H[b := ob] ! a = h0 ! a" using assms(3) frame_nth [OF assms(2)] by simp
  qed
  with 1 show ?thesis by simp
qed

lemma clone_deep_result:
  assumes wf: "wf_heap h0" and a: "a < length h0"
  shows "\<exists>m a' h'. clone_deep h0 (Ptr a) None = Inr (Ptr (length h'), h' @ [h' ! a'])
           \<and> copy_inv h0 {} m h' \<and> m a = Some a'"
proof -
  have "card ({..<length h0} - dom (Map.empty :: nat \<rightharpoonup> nat)) < Suc (length h0)" by simp
  from deepcopy_total(1) [OF wf copy_inv_init _ this, of "Ptr a"] a obtain m h' where
    dc: "deepcopy (Suc (length h0)) h0 Map.empty (Ptr a) = Some (rename m (Ptr a), m, h')"
    and cp: "copied h0 {} Map.empty h0 m h'" and im: "in_memo m (Ptr a)" by auto
  from im obtain a' where a': "m a = Some a'" by auto
  from cp have inv: "copy_inv h0 {} m h'" by (simp add: copied_def)
  then have mo: "memo_ok h0 m h'" and don: "done_ok h0 {} m h'" by (simp_all add: copy_inv_def)
  from mo a' have len: "a' < length h'" by (auto simp: memo_ok_def)
  have cd: "copy_deepcopy h0 (Ptr a) = Inr (Ptr a', h')"
    using dc a' by (simp add: copy_deepcopy_def)
  have "clone h0 (Ptr a) True None = Inr (Ptr (length h'), h' @ [h' ! a'])"
  proof (rule clone_from_copy [where copier = copy_deepcopy])
    show "a' < length h'" by (rule len)
    show "copy_deepcopy h0 (Ptr a) = Inr (Ptr a', h')" by (rule cd)
    show "copy_deepcopy = (if True then copy_deepcopy else copy_copy)" by simp
    fix kvs assume k: "h' ! a' = HDict kvs"
    from don a' have ob: "h' ! a' = with_refs (h0 ! a) (map (rename m) (refs_of (h0 ! a)))"
      by (simp add: done_ok_def)
    with k obtain kvs0 where k0: "h0 ! a = HDict kvs0" by (cases "h0 ! a") auto
    with ob k with_refs_rename [OF k0, of "rename m"]
    have "map fst kvs = map fst kvs0" by (auto simp: case_prod_beta)
    with wf_heap_obj [OF wf a] k0
    show "distinct_keys (map fst kvs) \<and> list_all hashable (map fst kvs)" by simp
  qed
  with inv a' show ?thesis by (auto simp: clone_deep_def)
qed

lemma value_of_same_object:
  assumes "r < length H" "a < length h" "H ! r = h ! a"
    and "\<And>x. x \<in> set (refs_of (h ! a)) \<Longrightarrow> value_of d H x = value_of d h x"
  shows "value_of (Suc d) H (Ptr r) = value_of (Suc d) h (Ptr a)"
proof (cases "h ! a")
  case (HList rs)
  have eqm: "map (value_of d H) rs = map (value_of d h) rs"
    using assms(4) HList by (intro map_cong) auto
  have "value_of (Suc d) H (Ptr r) = map_option PList (those (map (value_of d H) rs))"
    using assms(1,3) HList by simp
  then show ?thesis unfolding eqm using assms(2) HList by simp
next
  case (HDict kvs)
  have eqm: "map (\<lambda>(k, r). (k, value_of d H r)) kvs = map (\<lambda>(k, r). (k, value_of d h r)) kvs"
    using assms(4) HDict by (intro map_values_cong) force
  have "value_of (Suc d) H (Ptr r)
      = map_option PDict (those_pairs (map (\<lambda>(k, r). (k, value_of d H r)) kvs))"
    using assms(1,3) HDict by simp
  then show ?thesis unfolding eqm using assms(2) HDict by simp
qed

section \<open>Properties of \<^verbatim>\<open>update\<close>\<close>

lemma set_item_effect:
  assumes "set_item h obj key r = Inr h'"
  shows "get_item h' obj key dflt = Inr r \<and> length h' = length h
         \<and> (\<forall>b. Ptr b \<noteq> obj \<longrightarrow> h' ! b = h ! b)"
proof (cases obj)
  case (Imm v)
  with assms show ?thesis by simp
next
  case (Ptr a)
  with assms have a: "a < length h" by (simp split: if_splits)
  show ?thesis
  proof (cases "h ! a")
    case (HDict kvs)
    with assms Ptr a show ?thesis
      by (auto simp: dict_get_set_same split: if_splits)
  next
    case (HList rs)
    show ?thesis
    proof (cases "index_of key = Some (int (length rs))")
      case True
      then have "list_index (Suc (length rs)) key = Inr (length rs)"
        by (simp add: list_index_def)
      with assms Ptr a HList True show ?thesis by auto
    next
      case False
      with assms Ptr a HList obtain i where i: "list_index (length rs) key = Inr i"
        and h': "h' = h[a := HList (rs[i := r])]"
        by (auto split: sum.splits)
      from i have "i < length rs"
        by (auto simp: list_index_def Let_def split: option.splits if_splits)
      with i h' Ptr a show ?thesis by auto
    qed
  qed
qed

lemma update_loop_returns_obj:
  "update_loop n fe h obj source size0 i callback = Some (Inr (r, h')) \<Longrightarrow> r = obj"
proof (induction n arbitrary: h i)
  case 0
  then show ?case by simp
next
  case (Suc n)
  from Suc.prems show ?case
    by (auto simp: Let_def split: sum.splits option.splits prod.splits if_splits
        dest: Suc.IH)
qed

lemma update_returns_obj:
  "update n fe h obj source callback = Some (Inr (r, h')) \<Longrightarrow> r = obj"
  by (cases n) (auto split: sum.splits dest: update_loop_returns_obj)

lemma overlay_length: "i \<le> length ss \<Longrightarrow> length (overlay i ss ds) = max i (length ds)"
  by (auto simp: overlay_def)

lemma overlay_step:
  assumes "i < length ss"
  shows "(if i < length ds then (overlay i ss ds)[i := ss ! i] else overlay i ss ds @ [ss ! i])
         = overlay (Suc i) ss ds"
proof (cases "i < length ds")
  case True
  have "(take i ss @ drop i ds)[i := ss ! i] = take i ss @ (drop i ds)[0 := ss ! i]"
    using assms by (simp add: list_update_append)
  also have "(drop i ds)[0 := ss ! i] = ss ! i # drop (Suc i) ds"
    using True by (metis Cons_nth_drop_Suc list_update_code(2))
  finally show ?thesis using True assms by (simp add: overlay_def take_Suc_conv_app_nth)
next
  case False
  then show ?thesis using assms by (simp add: overlay_def take_Suc_conv_app_nth)
qed

lemma overlay_same: "overlay i ss ss = ss"
  by (simp add: overlay_def)

lemma overlay_all: "overlay (length ss) ss ds = ss @ drop (length ss) ds"
  by (simp add: overlay_def)

lemma list_index_nat_key:
  "list_index n (PInt (int i)) = (if i < n then Inr i else Inl IndexError)"
  by (simp add: list_index_def)

text \<open>The loop of \<^verbatim>\<open>update\<close> over a source list of immutable values: it puts the
  members of the source over those of the destination list, one position after the
  other, also when the two lists are one object.\<close>

lemma update_loop_overlay:
  assumes d: "d < length h" and l: "l < length h" "h ! l = HList ss"
    and same: "l = d \<Longrightarrow> ds = ss" and imm: "list_all is_imm ss"
  shows "i \<le> length ss \<Longrightarrow> length ss - i < n \<Longrightarrow>
    update_loop n fe (h[d := HList (overlay i ss ds)]) (Ptr d) (Ptr l) size0 i (Imm PNone)
      = Some (Inr (Ptr d, h[d := HList (overlay (length ss) ss ds)]))"
proof (induction "length ss - i" arbitrary: i n)
  case 0
  let ?H = "h[d := HList (overlay i ss ds)]"
  from 0 have i: "i = length ss" by simp
  from 0 obtain n' where n: "n = Suc n'" by (cases n) auto
  have src: "?H ! l = HList ss"
    using d l same by (cases "l = d") (simp_all add: overlay_same)
  have "iterate_next ?H (Ptr l) size0 i = Inr None" using l src i by simp
  then show ?case using n i by simp
next
  case (Suc k)
  let ?H = "h[d := HList (overlay i ss ds)]"
  from Suc have i: "i < length ss" by simp
  from Suc obtain n' where n: "n = Suc n'" and n': "length ss - Suc i < n'" by (cases n) auto
  have src: "?H ! l = HList ss"
    using d l same by (cases "l = d") (simp_all add: overlay_same)
  from imm i obtain v where v: "ss ! i = Imm v"
    by (cases "ss ! i") (auto simp: list_all_length)
  have nx: "iterate_next ?H (Ptr l) size0 i = Inr (Some (PInt (int i), Imm v))"
    using l src i v by simp
  have len: "length (overlay i ss ds) = max i (length ds)"
    using i by (simp add: overlay_length)
  have gt: "\<exists>ov. get_item ?H (Ptr d) (PInt (int i)) (Imm PNone) = Inr ov"
    using d by (simp add: list_index_nat_key)
  have st: "set_item ?H (Ptr d) (PInt (int i)) (Imm v) = Inr (h[d := HList (overlay (Suc i) ss ds)])"
  proof (cases "i < length ds")
    case True
    with overlay_step [OF i, of ds] v d len show ?thesis
      by (simp add: list_index_nat_key)
  next
    case False
    with overlay_step [OF i, of ds] v d len show ?thesis by simp
  qed
  from gt obtain ov where ov: "get_item ?H (Ptr d) (PInt (int i)) (Imm PNone) = Inr ov" ..
  have "update_loop (Suc n') fe ?H (Ptr d) (Ptr l) size0 i (Imm PNone)
      = update_loop n' fe (h[d := HList (overlay (Suc i) ss ds)]) (Ptr d) (Ptr l) size0 (Suc i) (Imm PNone)"
    using nx ov st by (simp del: get_item.simps set_item.simps iterate_next.simps)
  also have "\<dots> = Some (Inr (Ptr d, h[d := HList (overlay (length ss) ss ds)]))"
    using Suc(1) [of "Suc i" n'] Suc(2) i n' by simp
  finally show ?case using n by simp
qed

lemma update_lists:
  assumes "d < length h" "h ! d = HList ds" "l < length h" "h ! l = HList ss"
    and "list_all is_imm ss" and "length ss + 2 \<le> n"
  shows "update n fe h (Ptr d) (Ptr l) (Imm PNone)
      = Some (Inr (Ptr d, h[d := HList (ss @ drop (length ss) ds)]))"
proof -
  from assms(6) obtain n' where n: "n = Suc n'" and n': "length ss - 0 < n'" by (cases n) auto
  have same: "l = d \<Longrightarrow> ds = ss" using assms(2,4) by simp
  have h0: "h[d := HList (overlay 0 ss ds)] = h"
    using assms(1,2) by (simp add: overlay_def list_update_same_conv)
  have "update_loop n' fe (h[d := HList (overlay 0 ss ds)]) (Ptr d) (Ptr l) 0 0 (Imm PNone)
      = Some (Inr (Ptr d, h[d := HList (overlay (length ss) ss ds)]))"
    by (rule update_loop_overlay) (use assms same n' in simp_all)
  then have "update_loop n' fe h (Ptr d) (Ptr l) 0 0 (Imm PNone)
      = Some (Inr (Ptr d, h[d := HList (ss @ drop (length ss) ds)]))"
    by (simp add: h0 overlay_all)
  then show ?thesis using n assms(3,4) by simp
qed

lemma dict_set_id: "dict_get kvs k = Some v \<Longrightarrow> dict_set kvs k v = kvs"
  by (induction kvs) (auto split: if_splits)

lemma merge_dict_of_list:
  assumes o: "ob < length h" "h ! ob = HDict kvs" "hashable key" "dict_get kvs key = Some (Ptr d)"
    and d: "d < length h" "h ! d = HList ds"
    and s: "s < length h" "h ! s = HDict [(key, Ptr l)]"
    and l: "l < length h" "h ! l = HList ss" "ss \<noteq> []" "list_all is_imm ss"
    and n: "length ss + 4 \<le> n"
  shows "merge n fe h (Ptr ob) [Ptr s] (Imm PNone)
      = Some (Inr (Ptr ob, h[d := HList (ss @ drop (length ss) ds)]))"
proof -
  let ?h1 = "h[d := HList (ss @ drop (length ss) ds)]"
  from n obtain n2 where n2: "n = Suc (Suc n2)" "length ss + 2 \<le> n2"
    by (cases n; cases "n - 1") auto
  then obtain n3 where n3: "n2 = Suc n3" by (cases n2) auto
  have od: "ob \<noteq> d" and sd: "s \<noteq> d" using o(2) d(2) s(2) by auto
  have st: "iterate_start h (Ptr s) = Inr 1" using s by simp
  have nx: "iterate_next h (Ptr s) 1 0 = Inr (Some (key, Ptr l))" using s by simp
  have gt: "get_item h (Ptr ob) key (Imm PNone) = Inr (Ptr d)" using o by simp
  have tr: "heap_truthy h (Ptr l)" "heap_is_list h (Ptr l)" "heap_is_list h (Ptr d)"
    "\<not> heap_truthy h (Imm PNone)"
    using l d by simp_all
  have up: "update n2 fe h (Ptr d) (Ptr l) (Imm PNone) = Some (Inr (Ptr d, ?h1))"
    using update_lists [OF d l(1,2,4) n2(2)] .
  have "?h1 ! ob = HDict kvs" using o od by simp
  then have se: "set_item ?h1 (Ptr ob) key (Ptr d) = Inr ?h1"
    using o dict_set_id [OF o(4)] by (simp add: list_update_same_conv)
  have "?h1 ! s = HDict [(key, Ptr l)]" using s sd by simp
  then have en: "iterate_next ?h1 (Ptr s) 1 1 = Inr None" using s by simp
  have lp: "update_loop n2 fe ?h1 (Ptr ob) (Ptr s) 1 1 (Imm PNone) = Some (Inr (Ptr ob, ?h1))"
    using en n3 by (simp del: iterate_next.simps)
  have "update_loop (Suc n2) fe h (Ptr ob) (Ptr s) 1 0 (Imm PNone) = Some (Inr (Ptr ob, ?h1))"
    using nx gt tr up se lp
    by (simp del: iterate_next.simps get_item.simps set_item.simps heap_truthy.simps
        heap_is_list.simps update.simps update_loop.simps
        add: update_loop.simps(2) [of "n2"])
  then have "update n fe h (Ptr ob) (Ptr s) (Imm PNone) = Some (Inr (Ptr ob, ?h1))"
    using st n2(1) by (simp del: iterate_start.simps update_loop.simps)
  then show ?thesis by (simp add: merge_def)
qed

lemma update_loop_flat:
  assumes o: "ob < length h"
    and s: "s < length h" "s \<noteq> ob" "h ! s = HDict src"
    and hk: "list_all hashable (map fst src)"
    and fl: "list_all (flat_ref h ob) (map snd src)"
  shows "i \<le> length src \<Longrightarrow> length src - i < n \<Longrightarrow>
    update_loop n fe (h[ob := HDict acc]) (Ptr ob) (Ptr s) (length src) i (Imm PNone)
      = Some (Inr (Ptr ob,
            h[ob := HDict (fold (\<lambda>p a. dict_set a (fst p) (snd p)) (drop i src) acc)]))"
proof (induction "length src - i" arbitrary: i n acc)
  case 0
  let ?H = "h[ob := HDict acc]"
  from 0 have i: "i = length src" by simp
  from 0 obtain n' where n: "n = Suc n'" by (cases n) auto
  have "?H ! s = HDict src" using s by simp
  then have "iterate_next ?H (Ptr s) (length src) i = Inr None" using s i by simp
  then show ?case using n i by simp
next
  case (Suc k)
  let ?H = "h[ob := HDict acc]"
  from Suc have i: "i < length src" by simp
  from Suc obtain n' where n: "n = Suc n'" and n': "length src - Suc i < n'" by (cases n) auto
  obtain key r where p: "src ! i = (key, r)" by (cases "src ! i")
  have src: "?H ! s = HDict src" using s by simp
  have nx: "iterate_next ?H (Ptr s) (length src) i = Inr (Some (key, r))"
    using s src i p by simp
  have mem: "(key, r) \<in> set src" using i p by (metis nth_mem)
  have hkey: "hashable key" using hk mem by (auto simp: list_all_iff)
  have flat: "flat_ref h ob r" using fl mem by (auto simp: list_all_iff)
  from hkey o obtain ov where gt: "get_item ?H (Ptr ob) key (Imm PNone) = Inr ov" by simp
  have nr: "\<not> (heap_truthy ?H r \<and> heap_is_list ?H r) \<and> \<not> (heap_truthy ?H r \<and> heap_is_dict ?H r)"
    using flat by (cases r) auto
  have st: "set_item ?H (Ptr ob) key r = Inr (h[ob := HDict (dict_set acc key r)])"
    using o hkey by simp
  have cbf: "\<not> heap_truthy ?H (Imm PNone)" by simp
  have "update_loop (Suc n') fe ?H (Ptr ob) (Ptr s) (length src) i (Imm PNone)
      = update_loop n' fe (h[ob := HDict (dict_set acc key r)]) (Ptr ob) (Ptr s) (length src)
          (Suc i) (Imm PNone)"
    using nx gt nr st cbf
    by (auto simp del: get_item.simps set_item.simps iterate_next.simps heap_truthy.simps
        heap_is_list.simps heap_is_dict.simps simp: Let_def)
  also have "\<dots> = Some (Inr (Ptr ob, h[ob := HDict (fold (\<lambda>p a. dict_set a (fst p) (snd p))
        (drop (Suc i) src) (dict_set acc key r))]))"
    using Suc(1) [of "Suc i" n'] Suc(2) i n' by simp
  also have "fold (\<lambda>p a. dict_set a (fst p) (snd p)) (drop (Suc i) src) (dict_set acc key r)
      = fold (\<lambda>p a. dict_set a (fst p) (snd p)) (drop i src) acc"
    using i p by (simp add: Cons_nth_drop_Suc [symmetric])
  finally show ?case using n by simp
qed

lemma update_flat:
  assumes o: "ob < length h" "h ! ob = HDict kvs"
    and s: "s < length h" "s \<noteq> ob" "h ! s = HDict src"
    and hk: "list_all hashable (map fst src)"
    and fl: "list_all (flat_ref h ob) (map snd src)"
    and n: "length src + 2 \<le> n"
  shows "update n fe h (Ptr ob) (Ptr s) (Imm PNone)
      = Some (Inr (Ptr ob, h[ob := HDict (fold (\<lambda>p a. dict_set a (fst p) (snd p)) src kvs)]))"
proof -
  from n obtain n' where n': "n = Suc n'" "length src - 0 < n'" by (cases n) auto
  have h0: "h[ob := HDict kvs] = h" using o by (simp add: list_update_same_conv)
  have "update_loop n' fe (h[ob := HDict kvs]) (Ptr ob) (Ptr s) (length src) 0 (Imm PNone)
      = Some (Inr (Ptr ob,
            h[ob := HDict (fold (\<lambda>p a. dict_set a (fst p) (snd p)) (drop 0 src) kvs)]))"
    by (rule update_loop_flat) (use assms n' in simp_all)
  then show ?thesis
    using n' s by (simp add: h0)
qed

lemma merge_flat:
  assumes "ob < length h" "h ! ob = HDict kvs" "s < length h" "s \<noteq> ob" "h ! s = HDict src"
    and "list_all hashable (map fst src)" "list_all (flat_ref h ob) (map snd src)"
    and "length src + 2 \<le> n"
  shows "merge n fe h (Ptr ob) [Ptr s] (Imm PNone)
      = Some (Inr (Ptr ob, h[ob := HDict (fold (\<lambda>p a. dict_set a (fst p) (snd p)) src kvs)]))"
  using update_flat [OF assms, of fe] by (simp add: merge_def)

lemma dict_get_fold_last:
  assumes "src = pre @ (key, r) # post" "list_all (\<lambda>p. \<not> key_eq (fst p) key) post"
  shows "dict_get (fold (\<lambda>p a. dict_set a (fst p) (snd p)) src acc) key = Some r"
  using assms dict_get_fold_other [of key post] dict_get_set_eq [OF key_eq_refl, of _ key r]
  by simp

section \<open>Emptiness\<close>

text \<open>
  C6. \<^verbatim>\<open>is_empty(v)\<close> is true exactly when \<open>v\<close> is a boolean, or a number, or falsy.
  The values that pass are therefore every boolean, every integer and every float
  whatever its magnitude, \<^verbatim>\<open>None\<close>, the empty string, the empty list and the empty
  dict; in particular \<^verbatim>\<open>is_empty(0)\<close> and \<^verbatim>\<open>is_empty(5)\<close> both hold.
\<close>

theorem is_empty_iff:
  "is_empty v = (is_boolean v \<or> is_number v \<or> \<not> truthy v)
   \<and> is_empty v =
       ((\<exists>b. v = PBool b) \<or> (\<exists>i. v = PInt i) \<or> (\<exists>r. v = PFloat r)
        \<or> v = PNone \<or> v = PStr [] \<or> v = PList [] \<or> v = PDict [])
   \<and> is_empty (PInt 0) \<and> is_empty (PInt 5)"
  by (cases v) (simp_all add: is_empty_def)

theorem is_empty_iff_witness:
  "truthy (PList [PInt 1]) \<and> \<not> is_empty (PList [PInt 1])
   \<and> \<not> truthy (PList []) \<and> is_empty (PList [])
   \<and> truthy (PInt 5) \<and> is_empty (PInt 5)"
  using is_empty_iff [of "PList [PInt 1]"] is_empty_iff [of "PList []"]
    is_empty_iff [of "PInt 5"]
  by simp

section \<open>Scanning with a callback\<close>

text \<open>
  C5. \<^verbatim>\<open>find_last_key(obj, callback)\<close> is \<^verbatim>\<open>find_key(obj, callback)\<close>. It scans
  forward: when the pairs before \<open>(k, v)\<close> all give a falsy result and \<open>(k, v)\<close> gives
  a truthy one, the result is \<open>k\<close>, whatever the later pairs give; when every pair
  gives a falsy result, it is \<^verbatim>\<open>None\<close>.
\<close>

theorem find_last_key_forward_scan:
  "find_last_key fe obj cb = find_key fe obj cb
   \<and> (iterate obj = Inr (pre @ (k, v) # post) \<longrightarrow>
        list_all (\<lambda>p. returns_falsy (make_callback fe cb (snd p) (fst p) obj)) pre \<longrightarrow>
        returns_truthy (make_callback fe cb v k obj) \<longrightarrow>
        find_last_key fe obj cb = Inr k)
   \<and> (iterate obj = Inr ps \<longrightarrow>
        list_all (\<lambda>p. returns_falsy (make_callback fe cb (snd p) (fst p) obj)) ps \<longrightarrow>
        find_last_key fe obj cb = Inr PNone)"
proof (intro conjI impI)
  show "find_last_key fe obj cb = find_key fe obj cb" by (simp add: find_last_key_def)
next
  assume i: "iterate obj = Inr (pre @ (k, v) # post)"
    and f: "list_all (\<lambda>p. returns_falsy (make_callback fe cb (snd p) (fst p) obj)) pre"
    and t: "returns_truthy (make_callback fe cb v k obj)"
  from t obtain r where "make_callback fe cb v k obj = Inr r" "truthy r"
    by (cases "make_callback fe cb v k obj") auto
  then have "find_key_loop (map (callback_tuple fe cb obj) ((k, v) # post)) = Inr k"
    by (simp add: callback_tuple_def)
  with find_key_loop_skip [OF f, of "(k, v) # post"] iter_callback_tuples [OF i, of fe cb]
  show "find_last_key fe obj cb = Inr k"
    by (simp add: find_last_key_def find_key_def)
next
  assume i: "iterate obj = Inr ps"
    and f: "list_all (\<lambda>p. returns_falsy (make_callback fe cb (snd p) (fst p) obj)) ps"
  from find_key_loop_skip [OF f, of "[]"] iter_callback_tuples [OF i, of fe cb]
  show "find_last_key fe obj cb = Inr PNone"
    by (simp add: find_last_key_def find_key_def)
qed

theorem find_last_key_forward_scan_witness:
  "iterate (PList [PInt 0, PInt 1, PInt 1])
      = Inr ([(PInt 0, PInt 0)] @ (PInt 1, PInt 1) # [(PInt 2, PInt 1)])
   \<and> returns_falsy (make_callback no_env PNone (PInt 0) (PInt 0) (PList [PInt 0, PInt 1, PInt 1]))
   \<and> returns_truthy (make_callback no_env PNone (PInt 1) (PInt 1) (PList [PInt 0, PInt 1, PInt 1]))
   \<and> returns_truthy (make_callback no_env PNone (PInt 1) (PInt 2) (PList [PInt 0, PInt 1, PInt 1]))
   \<and> find_last_key no_env (PList [PInt 0, PInt 1, PInt 1]) PNone = Inr (PInt 1)
   \<and> find_key no_env (PList [PInt 0, PInt 1, PInt 1]) PNone = Inr (PInt 1)
   \<and> iterate (PList [PInt 0, PStr []]) = Inr [(PInt 0, PInt 0), (PInt 1, PStr [])]
   \<and> find_last_key no_env (PList [PInt 0, PStr []]) PNone = Inr PNone"
  using find_last_key_forward_scan [of no_env "PList [PInt 0, PInt 1, PInt 1]" PNone
      "[(PInt 0, PInt 0)]" "PInt 1" "PInt 1" "[(PInt 2, PInt 1)]" "[]"]
    find_last_key_forward_scan [of no_env "PList [PInt 0, PStr []]" PNone
      "[]" "PInt 0" "PInt 0" "[]" "[(PInt 0, PInt 0), (PInt 1, PStr [])]"]
  by auto


text \<open>
  C4. \<^verbatim>\<open>for_in(obj, callback)\<close> runs the callback on the pairs in iteration order.
  When the pairs before \<open>(k, v)\<close> give results other than the boolean \<^verbatim>\<open>False\<close> and
  \<open>(k, v)\<close> gives \<^verbatim>\<open>False\<close>, the callback has been run on exactly those pairs and
  \<open>(k, v)\<close>, and on none after it; when no pair gives \<^verbatim>\<open>False\<close>, it has been run on
  all of them. Falsy results such as \<^verbatim>\<open>0\<close>, \<^verbatim>\<open>''\<close>, \<^verbatim>\<open>None\<close> and \<^verbatim>\<open>0.0\<close> are
  other than \<^verbatim>\<open>False\<close>. In both cases \<open>obj\<close> is returned.
\<close>

theorem for_in_stops_at_False:
  "(iterate obj = Inr (pre @ (k, v) # post) \<longrightarrow>
      list_all (\<lambda>p. returns_not_False (make_callback fe cb (snd p) (fst p) obj)) pre \<longrightarrow>
      make_callback fe cb v k obj = Inr (PBool False) \<longrightarrow>
      for_in fe obj cb = Inr (obj, pre @ [(k, v)]))
   \<and> (iterate obj = Inr ps \<longrightarrow>
      list_all (\<lambda>p. returns_not_False (make_callback fe cb (snd p) (fst p) obj)) ps \<longrightarrow>
      for_in fe obj cb = Inr (obj, ps))
   \<and> returns_not_False (Inr (PInt 0)) \<and> returns_not_False (Inr (PStr []))
   \<and> returns_not_False (Inr PNone) \<and> returns_not_False (Inr (PFloat 0))"
proof (intro conjI impI)
  assume i: "iterate obj = Inr (pre @ (k, v) # post)"
    and f: "list_all (\<lambda>p. returns_not_False (make_callback fe cb (snd p) (fst p) obj)) pre"
    and t: "make_callback fe cb v k obj = Inr (PBool False)"
  from t have "for_in_loop (map (callback_tuple fe cb obj) ((k, v) # post)) ([] @ pre)
      = Inr (pre @ [(k, v)])"
    by (simp add: callback_tuple_def)
  with for_in_loop_skip [OF f, of "(k, v) # post" "[]"] iter_callback_tuples [OF i, of fe cb]
  show "for_in fe obj cb = Inr (obj, pre @ [(k, v)])"
    by (simp add: for_in_def)
next
  assume i: "iterate obj = Inr ps"
    and f: "list_all (\<lambda>p. returns_not_False (make_callback fe cb (snd p) (fst p) obj)) ps"
  from for_in_loop_skip [OF f, of "[]" "[]"] iter_callback_tuples [OF i, of fe cb]
  show "for_in fe obj cb = Inr (obj, ps)"
    by (simp add: for_in_def)
qed simp_all

theorem for_in_stops_at_False_witness:
  "iterate (PList [PInt 0, PStr [], PNone, PBool False, PInt 5])
     = Inr ([(PInt 0, PInt 0), (PInt 1, PStr []), (PInt 2, PNone)]
            @ (PInt 3, PBool False) # [(PInt 4, PInt 5)])
   \<and> for_in no_env (PList [PInt 0, PStr [], PNone, PBool False, PInt 5]) PNone
     = Inr (PList [PInt 0, PStr [], PNone, PBool False, PInt 5],
            [(PInt 0, PInt 0), (PInt 1, PStr []), (PInt 2, PNone), (PInt 3, PBool False)])
   \<and> iterate (PDict [(PStr ''a'', PInt 0), (PStr ''b'', PNone)])
     = Inr [(PStr ''a'', PInt 0), (PStr ''b'', PNone)]
   \<and> for_in no_env (PDict [(PStr ''a'', PInt 0), (PStr ''b'', PNone)]) PNone
     = Inr (PDict [(PStr ''a'', PInt 0), (PStr ''b'', PNone)],
            [(PStr ''a'', PInt 0), (PStr ''b'', PNone)])"
  using for_in_stops_at_False [of "PList [PInt 0, PStr [], PNone, PBool False, PInt 5]"
      "[(PInt 0, PInt 0), (PInt 1, PStr []), (PInt 2, PNone)]" "PInt 3" "PBool False"
      "[(PInt 4, PInt 5)]" no_env PNone "[]"]
    for_in_stops_at_False [of "PDict [(PStr ''a'', PInt 0), (PStr ''b'', PNone)]"
      "[]" "PStr ''a''" "PInt 0" "[(PStr ''b'', PNone)]" no_env PNone
      "[(PStr ''a'', PInt 0), (PStr ''b'', PNone)]"]
  by simp


section \<open>Assigning without sources\<close>

text \<open>
  C9. \<^verbatim>\<open>assign(obj)\<close> with no source and no callback keyword raises the index error
  of \<^verbatim>\<open>sources[-1]\<close> on the empty list; with a callback keyword other than \<^verbatim>\<open>None\<close>
  and no source it returns \<open>obj\<close> as it is.
\<close>

theorem assign_no_sources:
  "assign fe obj [] PNone = Inl IndexError
   \<and> (callback \<noteq> PNone \<longrightarrow> assign fe obj [] callback = Inr obj)"
  by (simp add: assign_def)

theorem assign_no_sources_witness:
  "PFunc 0 \<noteq> PNone
   \<and> assign no_env (PDict [(PStr ''a'', PInt 1)]) [] (PFunc 0) = Inr (PDict [(PStr ''a'', PInt 1)])
   \<and> assign no_env (PDict [(PStr ''a'', PInt 1)]) [] PNone = Inl IndexError"
  using assign_no_sources [of no_env "PDict [(PStr ''a'', PInt 1)]" "PFunc 0"]
  by simp

section \<open>Picking and omitting\<close>

text \<open>
  C10. Let \<open>obj\<close> be a list or a well-formed dict and \<open>cb\<close> a callable that returns
  on every pair of \<open>obj\<close>. Then \<^verbatim>\<open>pick(obj, cb)\<close> and \<^verbatim>\<open>omit(obj, cb)\<close> both return a
  dict; the first holds the pairs on which \<open>cb\<close> is truthy, the second those on
  which it is falsy, in iteration order; together they hold exactly the pairs of
  \<open>obj\<close>, and no key of one is a key of the other, even up to \<^verbatim>\<open>==\<close>.
\<close>

theorem pick_omit_partition:
  assumes "iterate obj = Inr ps" and "wf_keys obj" and "callable cb"
    and "list_all (\<lambda>p. \<not> isl (call fe cb [snd p, fst p, obj])) ps"
  shows "\<exists>picked omitted.
      pick fe obj cb properties = Inr (PDict picked)
    \<and> omit fe obj cb properties = Inr (PDict omitted)
    \<and> picked = filter (\<lambda>p. returns_truthy (call fe cb [snd p, fst p, obj])) ps
    \<and> omitted = filter (\<lambda>p. returns_falsy (call fe cb [snd p, fst p, obj])) ps
    \<and> set picked \<union> set omitted = set ps
    \<and> fst ` set picked \<inter> fst ` set omitted = {}
    \<and> (\<forall>p \<in> set picked. \<forall>q \<in> set omitted. \<not> key_eq (fst p) (fst q))"
proof -
  let ?cb = "\<lambda>value key. property_callback fe cb properties value key obj"
  let ?res = "\<lambda>p. call fe cb [snd p, fst p, obj]"
  let ?picked = "filter (\<lambda>p. returns_truthy (?res p)) ps"
  let ?omitted = "filter (\<lambda>p. returns_falsy (?res p)) ps"
  have cb: "?cb v k = call fe cb [v, k, obj]" for v k
    using assms(3) by (simp add: property_callback_def)
  from iterate_wf [OF assms(1,2)]
  have d: "distinct_keys (map fst ([] @ ps))" and h: "list_all hashable (map fst ps)" by simp_all
  have nr: "list_all (\<lambda>p. \<not> isl (?cb (snd p) (fst p))) ps" using assms(4) by (simp add: cb)
  have tr: "truthy (projr (?res p)) = returns_truthy (?res p)"
    and fa: "(\<not> truthy (projr (?res p))) = returns_falsy (?res p)" if "p \<in> set ps" for p
    using that assms(4) by (cases "?res p"; auto simp: list_all_iff)+
  have "pick fe obj cb properties = Inr (PDict (filter (\<lambda>p. truthy (projr (?res p))) ps))"
    using dict_where_filter [OF d h nr, of truthy] assms(1) by (simp add: pick_def cb)
  also have "filter (\<lambda>p. truthy (projr (?res p))) ps = ?picked"
    by (rule filter_cong) (simp_all add: tr)
  finally have 1: "pick fe obj cb properties = Inr (PDict ?picked)" .
  have "omit fe obj cb properties = Inr (PDict (filter (\<lambda>p. \<not> truthy (projr (?res p))) ps))"
    using dict_where_filter [OF d h nr, of "\<lambda>r. \<not> truthy r"] assms(1) by (simp add: omit_def cb)
  also have "filter (\<lambda>p. \<not> truthy (projr (?res p))) ps = ?omitted"
    by (rule filter_cong) (simp_all add: fa)
  finally have 2: "omit fe obj cb properties = Inr (PDict ?omitted)" .
  have split: "returns_truthy (?res p) \<noteq> returns_falsy (?res p)" if "p \<in> set ps" for p
    using that assms(4) by (cases "?res p") (auto simp: list_all_iff)
  have 3: "set ?picked \<union> set ?omitted = set ps" using split by auto
  have 4: "\<not> key_eq (fst p) (fst q)" if "p \<in> set ?picked" "q \<in> set ?omitted" for p q
  proof
    assume "key_eq (fst p) (fst q)"
    with that d have "p = q" using distinct_keys_fst_eq [of ps p q] by simp
    with that split show False by auto
  qed
  have 5: "fst ` set ?picked \<inter> fst ` set ?omitted = {}"
  proof (rule ccontr)
    assume "fst ` set ?picked \<inter> fst ` set ?omitted \<noteq> {}"
    then obtain k where "k \<in> fst ` set ?picked" "k \<in> fst ` set ?omitted" by blast
    then obtain p q where "p \<in> set ?picked" "q \<in> set ?omitted" "fst p = fst q"
      by (metis (no_types, lifting) imageE)
    with 4 [of p q] key_eq_refl [of "fst q"] show False by simp
  qed
  from 1 2 3 4 5 show ?thesis by blast
qed

theorem pick_omit_partition_witness:
  "iterate (PDict [(PStr ''a'', PInt 1), (PStr ''b'', PInt 0), (PStr ''c'', PStr ''x'')])
     = Inr [(PStr ''a'', PInt 1), (PStr ''b'', PInt 0), (PStr ''c'', PStr ''x'')]
   \<and> wf_keys (PDict [(PStr ''a'', PInt 1), (PStr ''b'', PInt 0), (PStr ''c'', PStr ''x'')])
   \<and> callable (PFunc 0)
   \<and> pick first_arg_env (PDict [(PStr ''a'', PInt 1), (PStr ''b'', PInt 0), (PStr ''c'', PStr ''x'')])
        (PFunc 0) [] = Inr (PDict [(PStr ''a'', PInt 1), (PStr ''c'', PStr ''x'')])
   \<and> omit first_arg_env (PDict [(PStr ''a'', PInt 1), (PStr ''b'', PInt 0), (PStr ''c'', PStr ''x'')])
        (PFunc 0) [] = Inr (PDict [(PStr ''b'', PInt 0)])"
proof -
  let ?obj = "PDict [(PStr ''a'', PInt 1), (PStr ''b'', PInt 0), (PStr ''c'', PStr ''x'')]"
  let ?ps = "[(PStr ''a'', PInt 1), (PStr ''b'', PInt 0), (PStr ''c'', PStr ''x'')]"
  have i: "iterate ?obj = Inr ?ps" by simp
  have w: "wf_keys ?obj" by (simp add: key_eq_def)
  have c: "callable (PFunc 0)" by simp
  have n: "list_all (\<lambda>p. \<not> isl (call first_arg_env (PFunc 0) [snd p, fst p, ?obj])) ?ps"
    by (simp add: first_arg_env_def)
  from pick_omit_partition [OF i w c n, of "[]"] i w c show ?thesis
    by (auto simp: first_arg_env_def)
qed

section \<open>Inverting\<close>

text \<open>
  C8. For a dict whose values are hashable, \<^verbatim>\<open>invert\<close> returns a dict in which a
  value \<open>v\<close> is mapped to the key of the last pair holding a value equal to \<open>v\<close>;
  and when the dict is well formed and its values are pairwise different (under
  \<^verbatim>\<open>==\<close>, as keys are compared), the result holds the swapped pairs in order and
  inverting it gives the dict back.
\<close>

theorem invert_last_wins_and_roundtrip:
  assumes "list_all hashable (map snd kvs)"
  shows "\<exists>inv. invert (PDict kvs) = Inr (PDict inv)
     \<and> (kvs = pre @ (k, v) # post \<longrightarrow> list_all (\<lambda>p. \<not> key_eq (snd p) v) post \<longrightarrow>
          dict_get inv v = Some k)
     \<and> (wf_keys (PDict kvs) \<longrightarrow> distinct_keys (map snd kvs) \<longrightarrow>
          inv = map (\<lambda>(key, val). (val, key)) kvs \<and> invert (PDict inv) = Inr (PDict kvs))"
proof -
  let ?swap = "\<lambda>(key, val). (val, key)"
  let ?set = "\<lambda>p a. dict_set a (fst p) (snd p)"
  let ?inv = "fold ?set (map ?swap kvs) []"
  have h: "list_all hashable (map fst (map ?swap kvs))"
    using assms by (simp add: list_all_iff case_prod_beta)
  have 1: "invert (PDict kvs) = Inr (PDict ?inv)"
    using dict_of_fold [OF h, of "[]"] by (simp add: invert_def)
  have 2: "dict_get ?inv v = Some k"
    if kvs: "kvs = pre @ (k, v) # post" and post: "list_all (\<lambda>p. \<not> key_eq (snd p) v) post"
  proof -
    have "?inv = fold ?set (map ?swap post) (dict_set (fold ?set (map ?swap pre) []) v k)"
      using kvs by simp
    moreover have "list_all (\<lambda>p. \<not> key_eq (fst p) v) (map ?swap post)"
      using post by (simp add: list_all_iff case_prod_beta)
    ultimately show ?thesis
      using dict_get_fold_other [of v "map ?swap post"] dict_get_set_eq [OF key_eq_refl, of _ v k]
      by simp
  qed
  have 3: "?inv = map ?swap kvs \<and> invert (PDict ?inv) = Inr (PDict kvs)"
    if wf: "wf_keys (PDict kvs)" and d: "distinct_keys (map snd kvs)"
  proof -
    have fs: "map fst (map ?swap kvs) = map snd kvs" by (simp add: case_prod_beta)
    have "dict_of [] (map ?swap kvs) = Inr (PDict ([] @ map ?swap kvs))"
      using d h by (intro dict_of_distinct) (simp_all only: fs append_Nil)
    with dict_of_fold [OF h, of "[]"] have a: "?inv = map ?swap kvs" by simp
    have sw: "map (?swap \<circ> ?swap) kvs = kvs" by (induction kvs) auto
    have "dict_of [] kvs = Inr (PDict ([] @ kvs))"
      using wf by (intro dict_of_distinct) simp_all
    then have "invert (PDict (map ?swap kvs)) = Inr (PDict kvs)"
      by (simp add: invert_def sw)
    with a show ?thesis by simp
  qed
  from 1 2 3 show ?thesis by blast
qed

theorem invert_last_wins_and_roundtrip_witness:
  "list_all hashable (map snd [(PStr ''a'', PInt 1), (PStr ''b'', PInt 2), (PStr ''c'', PBool True)])
   \<and> invert (PDict [(PStr ''a'', PInt 1), (PStr ''b'', PInt 2), (PStr ''c'', PBool True)])
       = Inr (PDict [(PInt 1, PStr ''c''), (PInt 2, PStr ''b'')])
   \<and> dict_get [(PInt 1, PStr ''c''), (PInt 2, PStr ''b'')] (PBool True) = Some (PStr ''c'')
   \<and> wf_keys (PDict [(PStr ''a'', PInt 1), (PStr ''b'', PInt 2)])
   \<and> distinct_keys (map snd [(PStr ''a'', PInt 1), (PStr ''b'', PInt 2)])
   \<and> invert (PDict [(PStr ''a'', PInt 1), (PStr ''b'', PInt 2)])
       = Inr (PDict [(PInt 1, PStr ''a''), (PInt 2, PStr ''b'')])
   \<and> invert (PDict [(PInt 1, PStr ''a''), (PInt 2, PStr ''b'')])
       = Inr (PDict [(PStr ''a'', PInt 1), (PStr ''b'', PInt 2)])"
proof -
  have h1: "list_all hashable
      (map snd [(PStr ''a'', PInt 1), (PStr ''b'', PInt 2), (PStr ''c'', PBool True)])" by simp
  have h2: "list_all hashable (map snd [(PStr ''a'', PInt 1), (PStr ''b'', PInt 2)])" by simp
  from invert_last_wins_and_roundtrip [OF h1,
      of "[(PStr ''a'', PInt 1), (PStr ''b'', PInt 2)]" "PStr ''c''" "PBool True" "[]"]
    invert_last_wins_and_roundtrip [OF h2, of "[(PStr ''a'', PInt 1)]" "PStr ''b''" "PInt 2" "[]"]
  show ?thesis by (simp add: invert_def key_eq_def)
qed

section \<open>Cloning\<close>

text \<open>
  C7. Let \<open>x\<close> be a list or dict at address \<open>a\<close> of a well-formed store \<open>h\<close>.
  \<^verbatim>\<open>clone(x)\<close> returns a new object, at an address \<open>r\<close> that \<open>h\<close> does not have; the
  objects of \<open>h\<close> are as they were; the new object has the members of \<open>x\<close>, and so
  the content of \<open>x\<close>; and whatever is then stored at \<open>r\<close>, the objects of \<open>h\<close> and
  the content of \<open>x\<close> stay as they were. \<^verbatim>\<open>clone_deep(x)\<close> returns a new object as
  well, with the content of \<open>x\<close> and the objects of \<open>h\<close> as they were; every object
  that can be reached from it is new, and whatever is then stored at such an object,
  the objects of \<open>h\<close> and the content of \<open>x\<close> stay as they were.
\<close>

theorem clone_fresh_storage:
  assumes "wf_heap h" and "a < length h"
  shows "(\<exists>r h'. clone h (Ptr a) False None = Inr (Ptr r, h')
            \<and> length h \<le> r \<and> r < length h' \<and> take (length h) h' = h
            \<and> h' ! r = h ! a
            \<and> (\<forall>d. value_of d h' (Ptr r) = value_of d h (Ptr a))
            \<and> (\<forall>ob d. take (length h) (h'[r := ob]) = h
                  \<and> value_of d (h'[r := ob]) (Ptr a) = value_of d h (Ptr a)))
       \<and> (\<exists>r h'. clone_deep h (Ptr a) None = Inr (Ptr r, h')
            \<and> length h \<le> r \<and> r < length h' \<and> take (length h) h' = h
            \<and> (\<forall>d. value_of d h' (Ptr r) = value_of d h (Ptr a))
            \<and> (\<forall>b. reach h' r b \<longrightarrow> length h \<le> b \<and> b < length h')
            \<and> (\<forall>b ob d. reach h' r b \<longrightarrow>
                  take (length h) (h'[b := ob]) = h
                  \<and> value_of d (h'[b := ob]) (Ptr a) = value_of d h (Ptr a)))"
proof (rule conjI)
  let ?h' = "h @ [h ! a, h ! a]" and ?r = "Suc (length h)"
  have cl: "closed_ref (length h) (Ptr a)" using assms(2) by simp
  have fr: "frame_ok h ?h'" by (simp add: frame_ok_def)
  have 1: "clone h (Ptr a) False None = Inr (Ptr ?r, ?h')" using assms by (rule clone_shallow)
  have 2: "?h' ! ?r = h ! a" by (simp add: nth_append)
  have 3: "value_of d ?h' (Ptr ?r) = value_of d h (Ptr a)" for d
  proof (cases d)
    case 0
    then show ?thesis by simp
  next
    case (Suc d')
    have ag: "value_of d' ?h' r = value_of d' h r" if "r \<in> set (refs_of (h ! a))" for r
    proof (rule value_of_agree [OF assms(1)])
      show "length h \<le> length ?h'" by simp
      show "closed_ref (length h) r" using wf_obj_refs [OF wf_heap_obj [OF assms] that] .
      fix b assume "b < length h" then show "?h' ! b = h ! b" by (simp add: nth_append)
    qed
    have "value_of (Suc d') ?h' (Ptr ?r) = value_of (Suc d') h (Ptr a)"
      using 2 ag assms(2) by (intro value_of_same_object) simp_all
    with Suc show ?thesis by simp
  qed
  have 4: "take (length h) (?h'[?r := ob]) = h
      \<and> value_of d (?h'[?r := ob]) (Ptr a) = value_of d h (Ptr a)" for ob d
    by (rule overwrite_outside [OF assms(1) fr _ cl]) simp
  from 1 2 3 4 show "\<exists>r h'. clone h (Ptr a) False None = Inr (Ptr r, h')
            \<and> length h \<le> r \<and> r < length h' \<and> take (length h) h' = h
            \<and> h' ! r = h ! a
            \<and> (\<forall>d. value_of d h' (Ptr r) = value_of d h (Ptr a))
            \<and> (\<forall>ob d. take (length h) (h'[r := ob]) = h
                  \<and> value_of d (h'[r := ob]) (Ptr a) = value_of d h (Ptr a))"
    by (intro exI [of _ ?r] exI [of _ ?h']) simp
next
  from clone_deep_result [OF assms] obtain m a' h1 where
    c: "clone_deep h (Ptr a) None = Inr (Ptr (length h1), h1 @ [h1 ! a'])"
    and inv: "copy_inv h {} m h1" and ma: "m a = Some a'" by blast
  let ?h' = "h1 @ [h1 ! a']" and ?r = "length h1"
  from inv have fr1: "frame_ok h h1" and mo: "memo_ok h m h1"
    and fo: "fresh_ok h h1" and don: "done_ok h {} m h1" by (simp_all add: copy_inv_def)
  from mo ma have a': "length h \<le> a'" "a' < length h1" by (auto simp: memo_ok_def)
  have cl: "closed_ref (length h) (Ptr a)" using assms(2) by simp
  have fr: "frame_ok h ?h'" using fr1 by (simp add: frame_ok_def)
  have len: "length h \<le> ?r" using fr1 by (simp add: frame_ok_def)
  have fo': "fresh_ok h ?h'"
    unfolding fresh_ok_def
  proof (intro allI impI)
    fix b assume b: "length h \<le> b \<and> b < length ?h'"
    have "list_all (new_ref (length h) (length h1)) (refs_of (?h' ! b))"
    proof (cases "b < length h1")
      case True
      with fo b show ?thesis by (simp add: fresh_ok_def nth_append)
    next
      case False
      with b have "?h' ! b = h1 ! a'" by (simp add: nth_append)
      with fo a' show ?thesis by (simp add: fresh_ok_def)
    qed
    then show "list_all (new_ref (length h) (length ?h')) (refs_of (?h' ! b))"
      by (auto simp: list_all_iff intro: new_ref_mono)
  qed
  have ext: "length h1 \<le> length ?h'" "\<And>b. b < length h1 \<Longrightarrow> ?h' ! b = h1 ! b"
    by (simp_all add: nth_append)
  have vc: "value_of d ?h' (rename m r) = value_of d h r" if "in_memo m r" for d r
    using value_of_copy [OF mo don ext that] .
  have ob: "h1 ! a' = with_refs (h ! a) (map (rename m) (refs_of (h ! a)))"
    and im: "list_all (in_memo m) (refs_of (h ! a))"
    using don ma by (auto simp: done_ok_def)
  have 3: "value_of d ?h' (Ptr ?r) = value_of d h (Ptr a)" for d
  proof (cases d)
    case 0
    then show ?thesis by simp
  next
    case (Suc d')
    have "value_of (Suc d') ?h' (Ptr ?r) = value_of (Suc d') h (Ptr a)"
    proof (rule value_of_with_refs [where m = m])
      show "?r < length ?h'" by simp
      show "a < length h" by (rule assms(2))
      show "?h' ! ?r = with_refs (h ! a) (map (rename m) (refs_of (h ! a)))"
        using ob by simp
      fix r assume "r \<in> set (refs_of (h ! a))"
      with im have "in_memo m r" by (simp add: list_all_iff)
      then show "value_of d' ?h' (rename m r) = value_of d' h r" by (rule vc)
    qed
    with Suc show ?thesis by simp
  qed
  have 5: "length h \<le> b \<and> b < length ?h'" if "reach ?h' ?r b" for b
    using reach_fresh [OF fo' that] len by simp
  have 6: "take (length h) (?h'[b := ob]) = h
      \<and> value_of d (?h'[b := ob]) (Ptr a) = value_of d h (Ptr a)" if "reach ?h' ?r b" for b ob d
  proof (rule overwrite_outside [OF assms(1) fr _ cl])
    show "length h \<le> b" using 5 [OF that] by simp
  qed
  have 7: "take (length h) ?h' = h" using fr by (simp add: frame_ok_def)
  from c len 3 5 6 7 show "\<exists>r h'. clone_deep h (Ptr a) None = Inr (Ptr r, h')
            \<and> length h \<le> r \<and> r < length h' \<and> take (length h) h' = h
            \<and> (\<forall>d. value_of d h' (Ptr r) = value_of d h (Ptr a))
            \<and> (\<forall>b. reach h' r b \<longrightarrow> length h \<le> b \<and> b < length h')
            \<and> (\<forall>b ob d. reach h' r b \<longrightarrow>
                  take (length h) (h'[b := ob]) = h
                  \<and> value_of d (h'[b := ob]) (Ptr a) = value_of d h (Ptr a))"
    by (intro exI [of _ ?r] exI [of _ ?h']) simp
qed

theorem clone_fresh_storage_witness:
  "wf_heap heap0 \<and> (1::nat) < length heap0
   \<and> clone heap0 (Ptr 1) False None
       = Inr (Ptr 4, heap0 @ [HDict [(PStr ''a'', Ptr 0), (PStr ''b'', Imm (PInt 3))],
                              HDict [(PStr ''a'', Ptr 0), (PStr ''b'', Imm (PInt 3))]])
   \<and> clone_deep heap0 (Ptr 1) None
       = Inr (Ptr 5, heap0 @ [HDict [(PStr ''a'', Ptr 4), (PStr ''b'', Imm (PInt 3))],
                              HList [Imm (PInt 1), Imm (PInt 2)],
                              HDict [(PStr ''a'', Ptr 4), (PStr ''b'', Imm (PInt 3))]])
   \<and> (\<exists>r h'. clone_deep heap0 (Ptr 1) None = Inr (Ptr r, h')
        \<and> length heap0 \<le> r \<and> take (length heap0) h' = heap0
        \<and> (\<forall>d. value_of d h' (Ptr r) = value_of d heap0 (Ptr 1))
        \<and> (\<forall>b. reach h' r b \<longrightarrow> length heap0 \<le> b))"
proof -
  have w: "wf_heap heap0" by (simp add: heap0_def wf_heap_def key_eq_def)
  have l: "(1::nat) < length heap0" by (simp add: heap0_def)
  have s: "clone heap0 (Ptr 1) False None
       = Inr (Ptr 4, heap0 @ [HDict [(PStr ''a'', Ptr 0), (PStr ''b'', Imm (PInt 3))],
                              HDict [(PStr ''a'', Ptr 0), (PStr ''b'', Imm (PInt 3))]])"
    by (simp add: heap0_def clone_def alloc_def identity_def key_eq_def)
  have d: "clone_deep heap0 (Ptr 1) None
       = Inr (Ptr 5, heap0 @ [HDict [(PStr ''a'', Ptr 4), (PStr ''b'', Imm (PInt 3))],
                              HList [Imm (PInt 1), Imm (PInt 2)],
                              HDict [(PStr ''a'', Ptr 4), (PStr ''b'', Imm (PInt 3))]])"
    by (simp add: heap0_def clone_deep_def clone_def copy_deepcopy_def alloc_def identity_def
        key_eq_def)
  from clone_fresh_storage [OF w l] have
    "\<exists>r h'. clone_deep heap0 (Ptr 1) None = Inr (Ptr r, h')
        \<and> length heap0 \<le> r \<and> take (length heap0) h' = heap0
        \<and> (\<forall>d. value_of d h' (Ptr r) = value_of d heap0 (Ptr 1))
        \<and> (\<forall>b. reach h' r b \<longrightarrow> length heap0 \<le> b)"
    by blast
  with w l s d show ?thesis by blast
qed

section \<open>Merging\<close>

text \<open>
  Claim C1, as amended. \<^verbatim>\<open>update(obj, source, callback)\<close> treats every pair
  \<open>(key, src_value)\<close> that the iteration over \<open>source\<close> yields, with \<open>obj_value\<close> the
  result of \<^verbatim>\<open>get_item(obj, key, default=None)\<close>, in one of three ways. Without a
  callback, when the source value is non-empty and the source value and the
  destination value are both lists or both dicts (the destination value may be
  empty), the two are merged in place by the recursive \<^verbatim>\<open>update(obj_value, src_value)\<close>,
  and \<open>obj_value\<close> is what is stored at \<open>key\<close>. With a callback whose call returns a
  value other than \<^verbatim>\<open>None\<close>, that value is stored at \<open>key\<close>, whatever the shapes of
  the two values are, and there is no recursion. Without a callback, when the source
  value is empty or the shapes do not match, the source value is stored at \<open>key\<close>.
  The loop then goes on to the next pair in the store as this one has left it, so
  that the statement holds under any sharing of objects; when the iteration ends,
  \<open>obj\<close> is returned.
\<close>

theorem update_merges_each_pair:
  "(iterate_next h source size0 i = Inr (Some (key, src_value)) \<longrightarrow>
    get_item h obj key (Imm PNone) = Inr obj_value \<longrightarrow>
    \<not> heap_truthy h callback \<longrightarrow> heap_truthy h src_value \<longrightarrow>
    heap_is_list h src_value \<and> heap_is_list h obj_value
      \<or> heap_is_dict h src_value \<and> heap_is_dict h obj_value \<longrightarrow>
    update_loop (Suc n) fe h obj source size0 i callback =
      (case update n fe h obj_value src_value (Imm PNone) of
         None \<Rightarrow> None
       | Some (Inl e) \<Rightarrow> Some (Inl e)
       | Some (Inr (result, h1)) \<Rightarrow>
           (case set_item h1 obj key obj_value of
              Inl e \<Rightarrow> Some (Inl e)
            | Inr h2 \<Rightarrow> update_loop n fe h2 obj source size0 (Suc i) callback)))
   \<and> (iterate_next h source size0 i = Inr (Some (key, src_value)) \<longrightarrow>
    get_item h obj key (Imm PNone) = Inr obj_value \<longrightarrow>
    heap_truthy h callback \<longrightarrow>
    heap_call fe h callback [obj_value, src_value] = Inr (result, h1) \<longrightarrow>
    result \<noteq> Imm PNone \<longrightarrow>
    update_loop (Suc n) fe h obj source size0 i callback =
      (case set_item h1 obj key result of
         Inl e \<Rightarrow> Some (Inl e)
       | Inr h2 \<Rightarrow> update_loop n fe h2 obj source size0 (Suc i) callback))
   \<and> (iterate_next h source size0 i = Inr (Some (key, src_value)) \<longrightarrow>
    get_item h obj key (Imm PNone) = Inr obj_value \<longrightarrow>
    \<not> heap_truthy h callback \<longrightarrow>
    \<not> (heap_truthy h src_value
        \<and> (heap_is_list h src_value \<and> heap_is_list h obj_value
            \<or> heap_is_dict h src_value \<and> heap_is_dict h obj_value)) \<longrightarrow>
    update_loop (Suc n) fe h obj source size0 i callback =
      (case set_item h obj key src_value of
         Inl e \<Rightarrow> Some (Inl e)
       | Inr h2 \<Rightarrow> update_loop n fe h2 obj source size0 (Suc i) callback))
   \<and> (iterate_next h source size0 i = Inr None \<longrightarrow>
    update_loop (Suc n) fe h obj source size0 i callback = Some (Inr (obj, h)))
   \<and> update (Suc n) fe h obj source callback =
      (case iterate_start h source of
         Inl e \<Rightarrow> Some (Inl e)
       | Inr size0 \<Rightarrow> update_loop n fe h obj source size0 0 callback)"
proof (intro conjI impI)
  assume nx: "iterate_next h source size0 i = Inr (Some (key, src_value))"
    and gt: "get_item h obj key (Imm PNone) = Inr obj_value"
    and cb: "\<not> heap_truthy h callback" and tr: "heap_truthy h src_value"
    and sh: "heap_is_list h src_value \<and> heap_is_list h obj_value
      \<or> heap_is_dict h src_value \<and> heap_is_dict h obj_value"
  show "update_loop (Suc n) fe h obj source size0 i callback =
      (case update n fe h obj_value src_value (Imm PNone) of
         None \<Rightarrow> None
       | Some (Inl e) \<Rightarrow> Some (Inl e)
       | Some (Inr (result, h1)) \<Rightarrow>
           (case set_item h1 obj key obj_value of
              Inl e \<Rightarrow> Some (Inl e)
            | Inr h2 \<Rightarrow> update_loop n fe h2 obj source size0 (Suc i) callback))"
  proof (cases "update n fe h obj_value src_value (Imm PNone)")
    case None
    with nx gt cb tr sh show ?thesis
      by (auto simp del: iterate_next.simps get_item.simps set_item.simps heap_truthy.simps
          heap_is_list.simps heap_is_dict.simps update.simps)
  next
    case (Some res)
    show ?thesis
    proof (cases res)
      case (Inl e)
      with Some nx gt cb tr sh show ?thesis
        by (auto simp del: iterate_next.simps get_item.simps set_item.simps heap_truthy.simps
            heap_is_list.simps heap_is_dict.simps update.simps)
    next
      case (Inr p)
      obtain r h1 where p: "p = (r, h1)" by (cases p)
      with Some Inr have "r = obj_value" by (auto dest: update_returns_obj)
      with Some Inr p nx gt cb tr sh show ?thesis
        by (auto simp del: iterate_next.simps get_item.simps set_item.simps heap_truthy.simps
            heap_is_list.simps heap_is_dict.simps update.simps)
    qed
  qed
next
  assume "iterate_next h source size0 i = Inr (Some (key, src_value))"
    "get_item h obj key (Imm PNone) = Inr obj_value" "heap_truthy h callback"
    "heap_call fe h callback [obj_value, src_value] = Inr (result, h1)"
  then show "update_loop (Suc n) fe h obj source size0 i callback =
      (case set_item h1 obj key result of
         Inl e \<Rightarrow> Some (Inl e)
       | Inr h2 \<Rightarrow> update_loop n fe h2 obj source size0 (Suc i) callback)"
    by (auto simp del: iterate_next.simps get_item.simps set_item.simps heap_truthy.simps
        heap_is_list.simps heap_is_dict.simps update.simps heap_call.simps)
next
  assume "iterate_next h source size0 i = Inr (Some (key, src_value))"
    "get_item h obj key (Imm PNone) = Inr obj_value" "\<not> heap_truthy h callback"
    "\<not> (heap_truthy h src_value
        \<and> (heap_is_list h src_value \<and> heap_is_list h obj_value
            \<or> heap_is_dict h src_value \<and> heap_is_dict h obj_value))"
  then show "update_loop (Suc n) fe h obj source size0 i callback =
      (case set_item h obj key src_value of
         Inl e \<Rightarrow> Some (Inl e)
       | Inr h2 \<Rightarrow> update_loop n fe h2 obj source size0 (Suc i) callback)"
    by (auto simp del: iterate_next.simps get_item.simps set_item.simps heap_truthy.simps
        heap_is_list.simps heap_is_dict.simps update.simps)
next
  assume "iterate_next h source size0 i = Inr None"
  then show "update_loop (Suc n) fe h obj source size0 i callback = Some (Inr (obj, h))"
    by (simp del: iterate_next.simps)
next
  show "update (Suc n) fe h obj source callback =
      (case iterate_start h source of
         Inl e \<Rightarrow> Some (Inl e)
       | Inr size0 \<Rightarrow> update_loop n fe h obj source size0 0 callback)"
    by simp
qed

theorem update_merges_each_pair_witness:
  "iterate_next heap1 (Ptr 3) 1 0 = Inr (Some (PStr ''a'', Ptr 2))
   \<and> get_item heap1 (Ptr 1) (PStr ''a'') (Imm PNone) = Inr (Ptr 0)
   \<and> \<not> heap_truthy heap1 (Imm PNone) \<and> heap_truthy heap1 (Ptr 2)
   \<and> heap_is_list heap1 (Ptr 2) \<and> heap_is_list heap1 (Ptr 0)
   \<and> update_loop 4 no_henv heap1 (Ptr 1) (Ptr 3) 1 0 (Imm PNone)
       = Some (Inr (Ptr 1, heap1[0 := HList [Imm (PInt 9), Imm (PInt 2)]]))
   \<and> heap_truthy heap1 (Imm (PFunc 0))
   \<and> heap_call cb_henv heap1 (Imm (PFunc 0)) [Ptr 0, Ptr 2] = Inr (Imm (PStr ''cb''), heap1)
   \<and> Imm (PStr ''cb'') \<noteq> Imm PNone
   \<and> update_loop 4 cb_henv heap1 (Ptr 1) (Ptr 3) 1 0 (Imm (PFunc 0))
       = Some (Inr (Ptr 1, heap1[1 := HDict [(PStr ''a'', Imm (PStr ''cb''))]]))
   \<and> iterate_next heap1 (Ptr 2) 0 0 = Inr (Some (PInt 0, Imm (PInt 9)))
   \<and> get_item heap1 (Ptr 0) (PInt 0) (Imm PNone) = Inr (Imm (PInt 1))
   \<and> \<not> heap_is_list heap1 (Imm (PInt 9)) \<and> \<not> heap_is_dict heap1 (Imm (PInt 9))
   \<and> update_loop 2 no_henv heap1 (Ptr 0) (Ptr 2) 0 0 (Imm PNone)
       = Some (Inr (Ptr 0, heap1[0 := HList [Imm (PInt 9), Imm (PInt 2)]]))
   \<and> iterate_next heap1 (Ptr 2) 0 1 = Inr None
   \<and> update_loop 1 no_henv heap1 (Ptr 0) (Ptr 2) 0 1 (Imm PNone) = Some (Inr (Ptr 0, heap1))
   \<and> update 10 no_henv heap2 (Ptr 1) (Ptr 4) (Imm PNone)
       = Some (Inr (Ptr 1, heap2[0 := HList [Imm (PInt 7), Imm (PInt 8), Imm (PInt 6)]]))"
proof -
  have u1: "update 3 no_henv heap1 (Ptr 0) (Ptr 2) (Imm PNone)
      = Some (Inr (Ptr 0, heap1[0 := HList [Imm (PInt 9), Imm (PInt 2)]]))"
    by (simp add: heap1_def eval_nat_numeral list_index_def)
  have a: "update_loop 4 no_henv heap1 (Ptr 1) (Ptr 3) 1 0 (Imm PNone)
       = Some (Inr (Ptr 1, heap1[0 := HList [Imm (PInt 9), Imm (PInt 2)]]))"
    using update_merges_each_pair [of heap1 "Ptr 3" 1 0 "PStr ''a''" "Ptr 2" "Ptr 1" "Ptr 0"
        "Imm PNone" 3 no_henv] u1
    by (simp add: heap1_def eval_nat_numeral key_eq_def)
  have b: "update_loop 4 cb_henv heap1 (Ptr 1) (Ptr 3) 1 0 (Imm (PFunc 0))
       = Some (Inr (Ptr 1, heap1[1 := HDict [(PStr ''a'', Imm (PStr ''cb''))]]))"
    using update_merges_each_pair [of heap1 "Ptr 3" 1 0 "PStr ''a''" "Ptr 2" "Ptr 1" "Ptr 0"
        "Imm (PFunc 0)" 3 cb_henv "Imm (PStr ''cb'')" heap1]
    by (simp add: heap1_def eval_nat_numeral key_eq_def cb_henv_def)
  have c: "update_loop 2 no_henv heap1 (Ptr 0) (Ptr 2) 0 0 (Imm PNone)
       = Some (Inr (Ptr 0, heap1[0 := HList [Imm (PInt 9), Imm (PInt 2)]]))"
    using update_merges_each_pair [of heap1 "Ptr 2" 0 0 "PInt 0" "Imm (PInt 9)" "Ptr 0"
        "Imm (PInt 1)" "Imm PNone" 1 no_henv]
    by (simp add: heap1_def eval_nat_numeral list_index_def)
  have d: "update_loop 1 no_henv heap1 (Ptr 0) (Ptr 2) 0 1 (Imm PNone) = Some (Inr (Ptr 0, heap1))"
    using update_merges_each_pair [of heap1 "Ptr 2" 0 1 _ _ "Ptr 0" _ "Imm PNone" 0 no_henv]
    by (simp add: heap1_def)
  have e: "update 10 no_henv heap2 (Ptr 1) (Ptr 4) (Imm PNone)
       = Some (Inr (Ptr 1, heap2[0 := HList [Imm (PInt 7), Imm (PInt 8), Imm (PInt 6)]]))"
    by (simp add: heap2_def eval_nat_numeral key_eq_def list_index_def)
  from a b c d e show ?thesis
    by (simp add: heap1_def cb_henv_def key_eq_def list_index_def)
qed

text \<open>
  Claim C1 as the spec words it does not hold. At \<^verbatim>\<open>obj = {'a': [1, 2]}\<close>,
  \<^verbatim>\<open>source = {'a': [9]}\<close> and a callback that returns \<^verbatim>\<open>'cb'\<close>, both values at
  \<^verbatim>\<open>'a'\<close> are non-empty lists, yet they are not merged by a recursive update: the
  callback's result is stored, and the list \<^verbatim>\<open>[1, 2]\<close> is left as it was, while a
  recursive update of the two lists, with or without the callback, would have
  changed it. And at \<^verbatim>\<open>obj = {'a': []}\<close>, \<^verbatim>\<open>source = {'a': [9]}\<close> without a callback,
  where the destination value is empty, the source value does not overwrite the
  destination value: \<open>obj\<close> keeps its own list, which the recursive update has
  filled, and does not hold the list of the source.
\<close>

theorem update_callback_counterexample:
  "heap_truthy heap1 (Ptr 2) \<and> heap_is_list heap1 (Ptr 2)
   \<and> heap_truthy heap1 (Ptr 0) \<and> heap_is_list heap1 (Ptr 0)
   \<and> get_item heap1 (Ptr 1) (PStr ''a'') (Imm PNone) = Inr (Ptr 0)
   \<and> get_item heap1 (Ptr 3) (PStr ''a'') (Imm PNone) = Inr (Ptr 2)
   \<and> update 5 cb_henv heap1 (Ptr 1) (Ptr 3) (Imm (PFunc 0))
       = Some (Inr (Ptr 1, [HList [Imm (PInt 1), Imm (PInt 2)],
                            HDict [(PStr ''a'', Imm (PStr ''cb''))],
                            HList [Imm (PInt 9)],
                            HDict [(PStr ''a'', Ptr 2)]]))
   \<and> update 5 cb_henv heap1 (Ptr 0) (Ptr 2) (Imm PNone)
       = Some (Inr (Ptr 0, [HList [Imm (PInt 9), Imm (PInt 2)],
                            HDict [(PStr ''a'', Ptr 0)],
                            HList [Imm (PInt 9)],
                            HDict [(PStr ''a'', Ptr 2)]]))
   \<and> update 5 cb_henv heap1 (Ptr 0) (Ptr 2) (Imm (PFunc 0))
       = Some (Inr (Ptr 0, [HList [Imm (PStr ''cb''), Imm (PInt 2)],
                            HDict [(PStr ''a'', Ptr 0)],
                            HList [Imm (PInt 9)],
                            HDict [(PStr ''a'', Ptr 2)]]))
   \<and> Imm (PStr ''cb'') \<noteq> Ptr 0
   \<and> \<not> heap_truthy heap5 (Ptr 0) \<and> heap_is_list heap5 (Ptr 0)
   \<and> heap_truthy heap5 (Ptr 2) \<and> heap_is_list heap5 (Ptr 2)
   \<and> get_item heap5 (Ptr 1) (PStr ''a'') (Imm PNone) = Inr (Ptr 0)
   \<and> get_item heap5 (Ptr 3) (PStr ''a'') (Imm PNone) = Inr (Ptr 2)
   \<and> update 5 no_henv heap5 (Ptr 1) (Ptr 3) (Imm PNone)
       = Some (Inr (Ptr 1, [HList [Imm (PInt 9)],
                            HDict [(PStr ''a'', Ptr 0)],
                            HList [Imm (PInt 9)],
                            HDict [(PStr ''a'', Ptr 2)]]))
   \<and> Ptr 0 \<noteq> Ptr 2"
  by (simp add: heap1_def heap5_def cb_henv_def eval_nat_numeral key_eq_def list_index_def)

text \<open>
  Claim C2. \<^verbatim>\<open>merge({'a': [1, 2]}, {'a': [9]})\<close> returns \<^verbatim>\<open>{'a': [9, 2]}\<close>: with the
  four objects in the store \<open>heap1\<close>, \<^verbatim>\<open>merge\<close> returns \<open>obj\<close> and has changed the
  list of \<open>obj\<close> to \<^verbatim>\<open>[9, 2]\<close>, for every bound of at least 5. In general, when a
  dict \<open>obj\<close> holds a list \<open>ds\<close> at \<open>key\<close> and the source is a dict that holds a non-empty
  list \<open>ss\<close> of immutable values at the same key, \<^verbatim>\<open>merge\<close> returns \<open>obj\<close>, and the
  only change to the store is that the list of \<open>obj\<close> has the members of \<open>ss\<close> at
  the positions below \<open>length ss\<close> and its own members from there on; a bound of
  \<open>length ss + 4\<close> suffices.
\<close>

theorem merge_lists_by_index:
  "(5 \<le> m \<longrightarrow>
      merge m fe heap1 (Ptr 1) [Ptr 3] (Imm PNone)
        = Some (Inr (Ptr 1, heap1[0 := HList [Imm (PInt 9), Imm (PInt 2)]])))
   \<and> value_of 2 heap1 (Ptr 1) = Some (PDict [(PStr ''a'', PList [PInt 1, PInt 2])])
   \<and> value_of 2 heap1 (Ptr 3) = Some (PDict [(PStr ''a'', PList [PInt 9])])
   \<and> value_of 2 (heap1[0 := HList [Imm (PInt 9), Imm (PInt 2)]]) (Ptr 1)
       = Some (PDict [(PStr ''a'', PList [PInt 9, PInt 2])])
   \<and> (ob < length h \<longrightarrow> h ! ob = HDict kvs \<longrightarrow> hashable key \<longrightarrow>
       dict_get kvs key = Some (Ptr d) \<longrightarrow> d < length h \<longrightarrow> h ! d = HList ds \<longrightarrow>
       s < length h \<longrightarrow> h ! s = HDict [(key, Ptr l)] \<longrightarrow>
       l < length h \<longrightarrow> h ! l = HList ss \<longrightarrow> ss \<noteq> [] \<longrightarrow> list_all is_imm ss \<longrightarrow>
       length ss + 4 \<le> n \<longrightarrow>
       merge n fe h (Ptr ob) [Ptr s] (Imm PNone)
         = Some (Inr (Ptr ob, h[d := HList (ss @ drop (length ss) ds)])))"
proof (intro conjI impI)
  assume m: "5 \<le> m"
  have "merge m fe heap1 (Ptr 1) [Ptr 3] (Imm PNone)
      = Some (Inr (Ptr 1, heap1[0 := HList ([Imm (PInt 9)] @ drop (length [Imm (PInt 9)])
            [Imm (PInt 1), Imm (PInt 2)])]))"
    by (rule merge_dict_of_list [where key = "PStr ''a''" and s = 3 and l = 2
          and kvs = "[(PStr ''a'', Ptr 0)]"])
      (use m in \<open>simp_all add: heap1_def key_eq_def\<close>)
  then show "merge m fe heap1 (Ptr 1) [Ptr 3] (Imm PNone)
     = Some (Inr (Ptr 1, heap1[0 := HList [Imm (PInt 9), Imm (PInt 2)]]))"
    by simp
next
  assume "ob < length h" "h ! ob = HDict kvs" "hashable key" "dict_get kvs key = Some (Ptr d)"
    "d < length h" "h ! d = HList ds" "s < length h" "h ! s = HDict [(key, Ptr l)]"
    "l < length h" "h ! l = HList ss" "ss \<noteq> []" "list_all is_imm ss" "length ss + 4 \<le> n"
  then show "merge n fe h (Ptr ob) [Ptr s] (Imm PNone)
         = Some (Inr (Ptr ob, h[d := HList (ss @ drop (length ss) ds)]))"
    by (rule merge_dict_of_list)
qed (simp_all add: heap1_def eval_nat_numeral)

theorem merge_lists_by_index_witness:
  "(1::nat) < length heap3
   \<and> heap3 ! 1 = HDict [(PStr ''a'', Ptr 0), (PStr ''b'', Imm (PInt 5))]
   \<and> hashable (PStr ''a'')
   \<and> dict_get [(PStr ''a'', Ptr 0), (PStr ''b'', Imm (PInt 5))] (PStr ''a'') = Some (Ptr 0)
   \<and> heap3 ! 0 = HList [Imm (PInt 1), Imm (PInt 2), Imm (PInt 3)]
   \<and> heap3 ! 3 = HDict [(PStr ''a'', Ptr 2)]
   \<and> heap3 ! 2 = HList [Imm (PInt 7), Imm (PInt 8)]
   \<and> list_all is_imm [Imm (PInt 7), Imm (PInt 8)]
   \<and> merge 6 no_henv heap3 (Ptr 1) [Ptr 3] (Imm PNone)
       = Some (Inr (Ptr 1, heap3[0 := HList [Imm (PInt 7), Imm (PInt 8), Imm (PInt 3)]]))
   \<and> value_of 2 (heap3[0 := HList [Imm (PInt 7), Imm (PInt 8), Imm (PInt 3)]]) (Ptr 1)
       = Some (PDict [(PStr ''a'', PList [PInt 7, PInt 8, PInt 3]), (PStr ''b'', PInt 5)])
   \<and> merge 5 no_henv heap1 (Ptr 1) [Ptr 3] (Imm PNone)
       = Some (Inr (Ptr 1, heap1[0 := HList [Imm (PInt 9), Imm (PInt 2)]]))"
  using merge_lists_by_index [where fe = no_henv and ob = 1 and h = heap3
      and kvs = "[(PStr ''a'', Ptr 0), (PStr ''b'', Imm (PInt 5))]" and key = "PStr ''a''"
      and d = 0 and ds = "[Imm (PInt 1), Imm (PInt 2), Imm (PInt 3)]" and s = 3 and l = 2
      and ss = "[Imm (PInt 7), Imm (PInt 8)]" and n = 6 and m = 5]
  by (simp add: heap3_def heap1_def key_eq_def eval_nat_numeral)

text \<open>
  Claim C3. Without a callback, a pair of the source whose value is an empty list or
  an empty dict is stored as it is: the step of the loop is
  \<^verbatim>\<open>set_item(obj, key, src_value)\<close> with the store unchanged in between, without a
  recursive call, whatever \<open>obj\<close> holds at \<open>key\<close>. After this \<^verbatim>\<open>set_item\<close>, \<open>obj\<close> holds
  the source value at \<open>key\<close>, and no other object of the store has changed. For a whole
  run: when \<open>obj\<close> is a dict and the source is another dict whose values are all
  immutable values or empty lists and dicts, \<^verbatim>\<open>update\<close>, and \<^verbatim>\<open>merge\<close> with this one
  source, return \<open>obj\<close> with a bound of two more than the number of pairs, change no
  object but \<open>obj\<close>, and \<open>obj\<close> then holds, at each key of the source, the value of
  the last pair with that key.
\<close>

theorem update_empty_source_overwrites:
  "(iterate_next h source size0 i = Inr (Some (key, Ptr e)) \<longrightarrow>
    e < length h \<longrightarrow> h ! e = HList [] \<or> h ! e = HDict [] \<longrightarrow>
    \<not> heap_truthy h callback \<longrightarrow>
    update_loop (Suc n) fe h obj source size0 i callback =
      (case get_item h obj key (Imm PNone) of
         Inl err \<Rightarrow> Some (Inl err)
       | Inr obj_value \<Rightarrow>
           (case set_item h obj key (Ptr e) of
              Inl err \<Rightarrow> Some (Inl err)
            | Inr h' \<Rightarrow> update_loop n fe h' obj source size0 (Suc i) callback)))
   \<and> (set_item h obj key (Ptr e) = Inr h' \<longrightarrow>
        get_item h' obj key (Imm PNone) = Inr (Ptr e) \<and> length h' = length h
        \<and> (\<forall>b. Ptr b \<noteq> obj \<longrightarrow> h' ! b = h ! b))
   \<and> (ob < length h \<longrightarrow> h ! ob = HDict kvs \<longrightarrow>
       s < length h \<longrightarrow> s \<noteq> ob \<longrightarrow> h ! s = HDict src \<longrightarrow>
       list_all hashable (map fst src) \<longrightarrow> list_all (flat_ref h ob) (map snd src) \<longrightarrow>
       length src + 2 \<le> m \<longrightarrow>
       (\<exists>h''. update m fe h (Ptr ob) (Ptr s) (Imm PNone) = Some (Inr (Ptr ob, h''))
          \<and> merge m fe h (Ptr ob) [Ptr s] (Imm PNone) = Some (Inr (Ptr ob, h''))
          \<and> length h'' = length h \<and> (\<forall>b. b \<noteq> ob \<longrightarrow> h'' ! b = h ! b)
          \<and> (src = pre @ (k, r) # post \<longrightarrow> list_all (\<lambda>p. \<not> key_eq (fst p) k) post \<longrightarrow>
               get_item h'' (Ptr ob) k (Imm PNone) = Inr r)))"
proof (rule conjI [OF _ conjI]; intro impI)
  assume nx: "iterate_next h source size0 i = Inr (Some (key, Ptr e))"
    and e: "e < length h" "h ! e = HList [] \<or> h ! e = HDict []"
    and cb: "\<not> heap_truthy h callback"
  from e have "\<not> heap_truthy h (Ptr e)" by auto
  with nx cb show "update_loop (Suc n) fe h obj source size0 i callback =
      (case get_item h obj key (Imm PNone) of
         Inl err \<Rightarrow> Some (Inl err)
       | Inr obj_value \<Rightarrow>
           (case set_item h obj key (Ptr e) of
              Inl err \<Rightarrow> Some (Inl err)
            | Inr h' \<Rightarrow> update_loop n fe h' obj source size0 (Suc i) callback))"
    by (auto simp del: iterate_next.simps get_item.simps set_item.simps heap_truthy.simps
        heap_is_list.simps heap_is_dict.simps update.simps split: sum.splits)
next
  assume "set_item h obj key (Ptr e) = Inr h'"
  then show "get_item h' obj key (Imm PNone) = Inr (Ptr e) \<and> length h' = length h
        \<and> (\<forall>b. Ptr b \<noteq> obj \<longrightarrow> h' ! b = h ! b)"
    by (rule set_item_effect)
next
  assume a: "ob < length h" "h ! ob = HDict kvs" "s < length h" "s \<noteq> ob" "h ! s = HDict src"
    "list_all hashable (map fst src)" "list_all (flat_ref h ob) (map snd src)"
    "length src + 2 \<le> m"
  let ?d = "fold (\<lambda>p a. dict_set a (fst p) (snd p)) src kvs"
  let ?h = "h[ob := HDict ?d]"
  have 1: "merge m fe h (Ptr ob) [Ptr s] (Imm PNone) = Some (Inr (Ptr ob, ?h))"
    using a by (rule merge_flat)
  have 2: "get_item ?h (Ptr ob) k (Imm PNone) = Inr r"
    if sp: "src = pre @ (k, r) # post" and la: "list_all (\<lambda>p. \<not> key_eq (fst p) k) post"
  proof -
    have "hashable k" using a(6) sp by simp
    with a(1) dict_get_fold_last [OF sp la, of kvs] show ?thesis by simp
  qed
  have 0: "update m fe h (Ptr ob) (Ptr s) (Imm PNone) = Some (Inr (Ptr ob, ?h))"
    using a by (rule update_flat)
  from 0 1 2 show "\<exists>h''. update m fe h (Ptr ob) (Ptr s) (Imm PNone) = Some (Inr (Ptr ob, h''))
          \<and> merge m fe h (Ptr ob) [Ptr s] (Imm PNone) = Some (Inr (Ptr ob, h''))
          \<and> length h'' = length h \<and> (\<forall>b. b \<noteq> ob \<longrightarrow> h'' ! b = h ! b)
          \<and> (src = pre @ (k, r) # post \<longrightarrow> list_all (\<lambda>p. \<not> key_eq (fst p) k) post \<longrightarrow>
               get_item h'' (Ptr ob) k (Imm PNone) = Inr r)"
    by (intro exI [of _ ?h]) simp
qed

theorem update_empty_source_overwrites_witness:
  "iterate_next heap4 (Ptr 5) 2 0 = Inr (Some (PStr ''a'', Ptr 3))
   \<and> heap4 ! 3 = HList [] \<and> \<not> heap_truthy heap4 (Imm PNone)
   \<and> get_item heap4 (Ptr 2) (PStr ''a'') (Imm PNone) = Inr (Ptr 0)
   \<and> heap_is_list heap4 (Ptr 0) \<and> heap_truthy heap4 (Ptr 0)
   \<and> set_item heap4 (Ptr 2) (PStr ''a'') (Ptr 3)
       = Inr (heap4[2 := HDict [(PStr ''a'', Ptr 3), (PStr ''b'', Ptr 1)]])
   \<and> update_loop 3 no_henv heap4 (Ptr 2) (Ptr 5) 2 0 (Imm PNone)
       = update_loop 2 no_henv (heap4[2 := HDict [(PStr ''a'', Ptr 3), (PStr ''b'', Ptr 1)]])
           (Ptr 2) (Ptr 5) 2 1 (Imm PNone)
   \<and> list_all (flat_ref heap4 2) [Ptr 3, Ptr 4]
   \<and> update 4 no_henv heap4 (Ptr 2) (Ptr 5) (Imm PNone)
       = Some (Inr (Ptr 2, heap4[2 := HDict [(PStr ''a'', Ptr 3), (PStr ''b'', Ptr 4)]]))
   \<and> merge 4 no_henv heap4 (Ptr 2) [Ptr 5] (Imm PNone)
       = Some (Inr (Ptr 2, heap4[2 := HDict [(PStr ''a'', Ptr 3), (PStr ''b'', Ptr 4)]]))
   \<and> value_of 2 heap4 (Ptr 2)
       = Some (PDict [(PStr ''a'', PList [PInt 1, PInt 2]),
                      (PStr ''b'', PDict [(PStr ''c'', PInt 1)])])
   \<and> value_of 2 (heap4[2 := HDict [(PStr ''a'', Ptr 3), (PStr ''b'', Ptr 4)]]) (Ptr 2)
       = Some (PDict [(PStr ''a'', PList []), (PStr ''b'', PDict [])])"
proof -
  have a: "update_loop 3 no_henv heap4 (Ptr 2) (Ptr 5) 2 0 (Imm PNone)
       = update_loop 2 no_henv (heap4[2 := HDict [(PStr ''a'', Ptr 3), (PStr ''b'', Ptr 1)]])
           (Ptr 2) (Ptr 5) 2 1 (Imm PNone)"
    using update_empty_source_overwrites [of heap4 "Ptr 5" 2 0 "PStr ''a''" 3 "Imm PNone" 2
        no_henv "Ptr 2"]
    by (simp add: heap4_def eval_nat_numeral key_eq_def)
  have b: "merge 4 no_henv heap4 (Ptr 2) [Ptr 5] (Imm PNone)
       = Some (Inr (Ptr 2, heap4[2 := HDict [(PStr ''a'', Ptr 3), (PStr ''b'', Ptr 4)]]))"
    by (simp add: merge_def heap4_def eval_nat_numeral key_eq_def)
  have c: "update 4 no_henv heap4 (Ptr 2) (Ptr 5) (Imm PNone)
       = Some (Inr (Ptr 2, heap4[2 := HDict [(PStr ''a'', Ptr 3), (PStr ''b'', Ptr 4)]]))"
    by (simp add: heap4_def eval_nat_numeral key_eq_def)
  from a b c show ?thesis
    by (simp add: heap4_def key_eq_def eval_nat_numeral)
qed

end
